theory Spec2Isabelle
  imports
    Complex_Main
    "HOL-Library.Char_ord"
    "HOL-Library.List_Lexorder"
    "HOL-Library.Multiset"
begin

section \<open>JavaScript values used by the broker\<close>

text \<open>
  A JavaScript number is a double. The embedding keeps the four kinds of double that the
  comparisons of the source tell apart: \<open>NaN\<close>, the two infinities and the finite
  numbers, a finite double being represented by the rational number it denotes. Signed
  zeros are not told apart. The quotient of two finite numbers is the double nearest to
  their exact quotient (\<open>to_double\<close> below).
\<close>

datatype jsnum = NaN | NInf | Fin rat | PInf

text \<open>The relational comparison \<open>a < b\<close> of two numbers: false as soon as one is \<open>NaN\<close>.\<close>

fun js_lt :: "jsnum \<Rightarrow> jsnum \<Rightarrow> bool" where
  "js_lt NaN b = False"
| "js_lt a NaN = False"
| "js_lt NInf NInf = False"
| "js_lt NInf b = True"
| "js_lt (Fin a) NInf = False"
| "js_lt (Fin a) (Fin b) = (a < b)"
| "js_lt (Fin a) PInf = True"
| "js_lt PInf b = False"

instantiation jsnum :: ord
begin

definition less_jsnum :: "jsnum \<Rightarrow> jsnum \<Rightarrow> bool" where
  "less_jsnum a b = js_lt a b"

definition less_eq_jsnum :: "jsnum \<Rightarrow> jsnum \<Rightarrow> bool" where
  "less_eq_jsnum a b = (a \<noteq> NaN \<and> b \<noteq> NaN \<and> \<not> js_lt b a)"

instance ..

end

text \<open>
  The rounding of the arithmetic of doubles (IEEE 754 binary64, round to nearest, ties
  to even). \<open>pow2 e\<close> is \<open>2^e\<close>. \<open>binade a\<close> is the exponent \<open>e\<close> with
  \<open>2^e \<le> a < 2^(e+1)\<close> of a positive \<open>a\<close>, found by halving or doubling \<open>a\<close>.
  A double of this binade is a multiple of \<open>2^(e-52)\<close>, and of \<open>2^-1074\<close> below the
  normal range; \<open>to_double q\<close> is the multiple nearest to \<open>q\<close>, the even one of two
  nearest, and an infinity from \<open>2^1024\<close> on.
\<close>

definition pow2 :: "int \<Rightarrow> rat" where
  "pow2 e = (if 0 \<le> e then 2 ^ nat e else 1 / 2 ^ nat (- e))"

function binade_up :: "rat \<Rightarrow> int" where
  "binade_up a = (if a < 2 then 0 else binade_up (a / 2) + 1)"
  by pat_completeness auto
termination
proof (relation "measure (\<lambda>a. nat \<lfloor>a\<rfloor>)")
  show "wf (measure (\<lambda>a :: rat. nat \<lfloor>a\<rfloor>))" by simp
next
  fix a :: rat assume n: "\<not> a < 2"
  then have "a / 2 \<le> a - 1" by simp
  then have "\<lfloor>a / 2\<rfloor> \<le> \<lfloor>a - 1\<rfloor>" by (rule floor_mono)
  moreover have "1 \<le> \<lfloor>a\<rfloor>" using n by linarith
  ultimately show "(a / 2, a) \<in> measure (\<lambda>a. nat \<lfloor>a\<rfloor>)" by simp
qed

function binade_down :: "rat \<Rightarrow> int" where
  "binade_down a = (if a \<le> 0 \<or> 1 \<le> a then 0 else binade_down (a * 2) - 1)"
  by pat_completeness auto
termination
proof (relation "measure (\<lambda>a. nat \<lceil>1 / a\<rceil>)")
  show "wf (measure (\<lambda>a :: rat. nat \<lceil>1 / a\<rceil>))" by simp
next
  fix a :: rat assume "\<not> (a \<le> 0 \<or> 1 \<le> a)"
  then have a: "0 < a" "a < 1" by simp_all
  then have x: "1 < 1 / a" by simp
  then have c: "2 \<le> \<lceil>1 / a\<rceil>" by linarith
  have "1 / (a * 2) = (1 / a) / 2" by simp
  also have "\<dots> \<le> of_int \<lceil>1 / a\<rceil> / 2" by (simp add: divide_right_mono)
  also have "\<dots> \<le> of_int (\<lceil>1 / a\<rceil> - 1)" using c by simp
  finally have "\<lceil>1 / (a * 2)\<rceil> < \<lceil>1 / a\<rceil>" by (simp add: ceiling_less_iff)
  then show "(a * 2, a) \<in> measure (\<lambda>a. nat \<lceil>1 / a\<rceil>)" using c a by simp
qed

declare binade_up.simps [simp del]
declare binade_down.simps [simp del]

definition binade :: "rat \<Rightarrow> int" where
  "binade a = (if 1 \<le> a then binade_up a else binade_down a)"

definition round_half_even :: "rat \<Rightarrow> int" where
  "round_half_even m =
     (let f = \<lfloor>m\<rfloor>; r = m - of_int f in
        if r < 1 / 2 then f else if 1 / 2 < r then f + 1 else if even f then f else f + 1)"

definition to_double :: "rat \<Rightarrow> jsnum" where
  "to_double q =
     (if q = 0 then Fin 0
      else
        (let a = \<bar>q\<bar>;
             e = max (binade a) (- 1022);
             ulp = pow2 (e - 52);
             r = of_int (round_half_even (a / ulp)) * ulp
         in
           if pow2 1024 \<le> r then (if q < 0 then NInf else PInf)
           else Fin (if q < 0 then - r else r)))"

text \<open>The division \<open>a / b\<close> of two numbers, with \<open>0 / 0 = NaN\<close>.\<close>

fun js_div :: "jsnum \<Rightarrow> jsnum \<Rightarrow> jsnum" where
  "js_div NaN b = NaN"
| "js_div a NaN = NaN"
| "js_div (Fin a) (Fin b) =
     (if b = 0 then (if a = 0 then NaN else if 0 < a then PInf else NInf)
      else to_double (a / b))"
| "js_div (Fin a) b = Fin 0"
| "js_div PInf (Fin b) = (if b < 0 then NInf else PInf)"
| "js_div NInf (Fin b) = (if b < 0 then PInf else NInf)"
| "js_div a b = NaN"

text \<open>An integer counter or identifier read as a number (the integers up to \<open>2^53\<close> in
  absolute value are doubles, and their sums below this bound are exact).\<close>

definition num :: "int \<Rightarrow> jsnum" where
  "num i = Fin (of_int i)"

text \<open>
  The values that travel through the broker as publication data and as results of
  subscribers. Only their identity and their truthiness matter to the source.
\<close>

datatype jsval =
  JUndefined | JNull | JBool bool | JNum jsnum | JStr string | JErrorObj string | JObject nat

fun truthy :: "jsval \<Rightarrow> bool" where
  "truthy JUndefined = False"
| "truthy JNull = False"
| "truthy (JBool b) = b"
| "truthy (JNum n) = (n \<noteq> NaN \<and> n \<noteq> Fin 0)"
| "truthy (JStr s) = (s \<noteq> [])"
| "truthy (JErrorObj m) = True"
| "truthy (JObject a) = True"

text \<open>The exceptions the source can raise: \<open>new Error(message)\<close> of \<open>assert\<close>, a
  \<open>TypeError\<close> of the runtime, and a value thrown by a subscriber.\<close>

datatype error = Error string | TypeError | Thrown jsval

section \<open>Standard data structure algorithms\<close>

text \<open>
  \<open>binaryIndexBy\<close>: the loop \<open>while (low < high)\<close> with \<open>mid = low + high >>> 1\<close>,
  which is the floor of the half for every array shorter than \<open>2^31\<close> elements.
\<close>

function binaryIndexBy_loop ::
  "('a \<Rightarrow> 'k::ord) \<Rightarrow> 'k \<Rightarrow> 'a list \<Rightarrow> nat \<Rightarrow> nat \<Rightarrow> nat" where
  "binaryIndexBy_loop getValue v arr low high =
     (if low < high then
        (let mid = (low + high) div 2; elem = getValue (arr ! mid) in
           if elem < v then binaryIndexBy_loop getValue v arr (mid + 1) high
           else binaryIndexBy_loop getValue v arr low mid)
      else high)"
  by pat_completeness auto
termination
  by (relation "measure (\<lambda>(getValue, v, arr, low, high). high - low)") auto

definition binaryIndexBy :: "('a \<Rightarrow> 'k::ord) \<Rightarrow> 'k \<Rightarrow> 'a list \<Rightarrow> nat" where
  "binaryIndexBy getValue item arr = binaryIndexBy_loop getValue item arr 0 (length arr)"

text \<open>\<open>list.splice(index, 0, item)\<close> and \<open>list.splice(index, 1)\<close>.\<close>

definition splice_in :: "nat \<Rightarrow> 'a \<Rightarrow> 'a list \<Rightarrow> 'a list" where
  "splice_in index item list = take index list @ item # drop index list"

definition splice_out :: "nat \<Rightarrow> 'a list \<Rightarrow> 'a list" where
  "splice_out index list = take index list @ drop (index + 1) list"

text \<open>
  A finger array is an array with a pointer. \<open>SYMBOL_NOTHING\<close> is the sentinel that
  \<open>getPointedFinger\<close> returns for an exhausted array.
\<close>

record 'a fingerArray =
  pointer :: nat
  array :: "'a list"

datatype 'a finger = SYMBOL_NOTHING | Item 'a

definition mkFingerArray :: "'a list \<Rightarrow> 'a fingerArray" where
  "mkFingerArray arr = \<lparr>pointer = 0, array = arr\<rparr>"

definition getPointedFinger :: "'a fingerArray \<Rightarrow> 'a finger" where
  "getPointedFinger fArray =
     (if length (array fArray) > pointer fArray then Item (array fArray ! pointer fArray)
      else SYMBOL_NOTHING)"

text \<open>The elements of a finger array from its pointer on (used to state properties).\<close>

definition remaining :: "'a fingerArray \<Rightarrow> 'a list" where
  "remaining fa = drop (pointer fa) (array fa)"

text \<open>
  \<open>minBy\<close> returns one of the objects of \<open>list\<close>, which \<open>mergeBy\<close> then mutates. The
  finger arrays of \<open>mergeBy\<close> are distinct objects, so the model returns the index of the
  winner in \<open>list\<close>. On an empty list the source reads \<open>list[0]\<close>, which is
  \<open>undefined\<close>, and the value computer raises a \<open>TypeError\<close> on it.
\<close>

function minBy_loop ::
  "('b \<Rightarrow> jsnum) \<Rightarrow> 'b list \<Rightarrow> nat \<Rightarrow> nat \<Rightarrow> jsnum \<Rightarrow> nat" where
  "minBy_loop valueComputer list idx winner computedWinner =
     (if idx + 1 < length list then
        (let computedCurrent = valueComputer (list ! (idx + 1)) in
           if computedCurrent < computedWinner
           then minBy_loop valueComputer list (idx + 1) (idx + 1) computedCurrent
           else minBy_loop valueComputer list (idx + 1) winner computedWinner)
      else winner)"
  by pat_completeness auto
termination
  by (relation "measure (\<lambda>(valueComputer, list, idx, winner, computedWinner). length list - idx)")
    auto

definition minBy :: "('b \<Rightarrow> jsnum) \<Rightarrow> 'b list \<Rightarrow> error + nat" where
  "minBy valueComputer list =
     (if list = [] then Inl TypeError
      else Inr (minBy_loop valueComputer list 0 0 (valueComputer (list ! 0))))"

text \<open>
  \<open>mergeBy\<close>: \<open>n\<close> is the sum of the lengths, \<open>result\<close> is filled from index \<open>0\<close>
  to \<open>n - 1\<close> in this order, so the model appends to it.
\<close>

function mergeBy_loop ::
  "('a fingerArray \<Rightarrow> jsnum) \<Rightarrow> nat \<Rightarrow> nat \<Rightarrow> 'a fingerArray list \<Rightarrow> 'a finger list
     \<Rightarrow> error + 'a finger list" where
  "mergeBy_loop getItemOrder n i fingerArrays result =
     (if i < n then
        (case minBy getItemOrder fingerArrays of
           Inl e \<Rightarrow> Inl e
         | Inr m \<Rightarrow>
             mergeBy_loop getItemOrder n (i + 1)
               (fingerArrays[m := (fingerArrays ! m)\<lparr>pointer := pointer (fingerArrays ! m) + 1\<rparr>])
               (result @ [getPointedFinger (fingerArrays ! m)]))
      else Inr result)"
  by pat_completeness auto
termination
  by (relation "measure (\<lambda>(getItemOrder, n, i, fingerArrays, result). n - i)") auto

declare binaryIndexBy_loop.simps [simp del]
declare minBy_loop.simps [simp del]
declare mergeBy_loop.simps [simp del]

definition mergeBy ::
  "('a fingerArray \<Rightarrow> jsnum) \<Rightarrow> 'a list list \<Rightarrow> error + 'a finger list" where
  "mergeBy getItemOrder arrays =
     mergeBy_loop getItemOrder (sum_list (map length arrays)) 0 (map mkFingerArray arrays) []"

section \<open>The data model of the broker\<close>

text \<open>
  The values of an options object. The source converts them with \<open>ToBoolean\<close> (in
  conditions) and \<open>ToNumber\<close> (in comparisons and in \<open>+options.priority\<close>); the model
  covers \<open>undefined\<close>, \<open>null\<close>, booleans and numbers.
\<close>

datatype optval = OUndefined | ONull | OBool bool | ONum jsnum

fun to_boolean :: "optval \<Rightarrow> bool" where
  "to_boolean OUndefined = False"
| "to_boolean ONull = False"
| "to_boolean (OBool b) = b"
| "to_boolean (ONum n) = (n \<noteq> NaN \<and> n \<noteq> Fin 0)"

fun to_number :: "optval \<Rightarrow> jsnum" where
  "to_number OUndefined = NaN"
| "to_number ONull = Fin 0"
| "to_number (OBool b) = (if b then Fin 1 else Fin 0)"
| "to_number (ONum n) = n"

text \<open>An options object is a dictionary from property names to values; reading a
  property that is absent gives \<open>undefined\<close>.\<close>

type_synonym options = "string \<rightharpoonup> optval"

definition opt :: "options \<Rightarrow> string \<Rightarrow> optval" where
  "opt options x = (case options x of None \<Rightarrow> OUndefined | Some v \<Rightarrow> v)"

text \<open>
  \<open>merge\<close>: a new object with the own properties of \<open>a\<close>, then those of \<open>b\<close>. The
  argument \<open>b\<close> of the callers may be \<open>undefined\<close>, whose \<open>for in\<close> loop has no
  iteration: that is the empty dictionary.
\<close>

definition merge :: "options \<Rightarrow> options \<Rightarrow> options" where
  "merge a b = (\<lambda>x. case b x of Some v \<Rightarrow> Some v | None \<Rightarrow> a x)"

text \<open>
  How a promise ends up, and what a call of a subscriber function does. A subscriber
  body may call its third parameter once, synchronously, with \<open>(err, succ)\<close>, and then
  it returns a value, returns a thenable, or throws. Its receiver \<open>this\<close> is not modelled,
  and a body does not call back into the broker.
\<close>

datatype settlement = Fulfilled jsval | Rejected jsval | Pending

datatype completion = Returns jsval | ReturnsThenable settlement | Throws jsval

record behaviour =
  calls_done :: "(jsval \<times> jsval) option"
  finish :: completion

text \<open>
  A function object: its declared number of parameters \<open>fn.length\<close>, whether it carries
  a truthy own property \<open>suspended\<close>, and its body on the first two arguments
  \<open>(data, topic)\<close>.
\<close>

record jsfun =
  fn_length :: nat
  fn_suspended :: bool
  fn_body :: "jsval \<Rightarrow> jsval \<Rightarrow> behaviour"

text \<open>\<open>noop\<close>: no parameter, returns \<open>undefined\<close>.\<close>

definition noop :: jsfun where
  "noop = \<lparr>fn_length = 0, fn_suspended = False,
     fn_body = (\<lambda>d t. \<lparr>calls_done = None, finish = Returns JUndefined\<rparr>)\<rparr>"

text \<open>
  The \<open>subscription\<close> argument of \<open>subscribe\<close>: \<open>undefined\<close> or \<open>null\<close>, another value
  that is not a function (with no property \<open>suspended\<close> and no method \<open>call\<close>), or a
  function.
\<close>

datatype subscriber = SNullish | SNotCallable | SFunction jsfun

record subscription =
  s_id :: int
  s_fn :: jsfun
  s_suspended :: bool
  s_priority :: jsnum
  s_context :: jsval

record message =
  m_topic :: string
  m_data :: jsval
  m_order :: int

text \<open>A token \<open>{topic, id, priority}\<close>; the token of a publication has no priority.\<close>

record token =
  t_topic :: string
  t_id :: int
  t_priority :: "jsnum option"

text \<open>A node of the topic tree: \<open>{topic, subscriptions, children, persisted}\<close>.\<close>

datatype node =
  Node (n_topic: string) (n_subscriptions: "subscription list") (n_children: "node list")
    (n_persisted: "message list")

definition createNode :: "string \<Rightarrow> node" where
  "createNode topic = Node topic [] [] []"

definition getTopic :: "node \<Rightarrow> string" where
  "getTopic node = n_topic node"

definition getOrder :: "message \<Rightarrow> jsnum" where
  "getOrder persistedSubscription = num (m_order persistedSubscription)"

definition getPersisted :: "node \<Rightarrow> message list" where
  "getPersisted node = n_persisted node"

definition getPriority :: "subscription \<Rightarrow> jsnum" where
  "getPriority subscription = s_priority subscription"

definition getSubscriptions :: "node \<Rightarrow> subscription list" where
  "getSubscriptions node = n_subscriptions node"

text \<open>
  \<open>getId\<close> reads \<open>obj.id\<close>. On a subscription this is its identifier. A persisted
  message has the properties \<open>topic\<close>, \<open>data\<close> and \<open>order\<close> only, so \<open>obj.id\<close> is
  \<open>undefined\<close> there, which the comparison \<open>elem < value\<close> of \<open>binaryIndexBy\<close>
  converts to \<open>NaN\<close>.
\<close>

definition getId :: "subscription \<Rightarrow> jsnum" where
  "getId obj = num (s_id obj)"

definition getId_persisted :: "message \<Rightarrow> jsnum" where
  "getId_persisted obj = NaN"

definition getFingerArrayOrder :: "message fingerArray \<Rightarrow> jsnum" where
  "getFingerArrayOrder fingerArray =
     (case getPointedFinger fingerArray of SYMBOL_NOTHING \<Rightarrow> PInf | Item item \<Rightarrow> getOrder item)"

definition getFingerArrayPriority :: "subscription fingerArray \<Rightarrow> jsnum" where
  "getFingerArrayPriority fingerArray =
     (case getPointedFinger fingerArray of
        SYMBOL_NOTHING \<Rightarrow> PInf | Item item \<Rightarrow> getPriority item)"

section \<open>The topic tree\<close>

text \<open>Reading \<open>arr[i]\<close>: \<open>undefined\<close> (here \<open>None\<close>) outside the array.\<close>

definition nth_opt :: "'a list \<Rightarrow> int \<Rightarrow> 'a option" where
  "nth_opt arr i = (if 0 \<le> i \<and> nat i < length arr then Some (arr ! nat i) else None)"

text \<open>\<open>reduce\<close>: the left fold of the source's loop.\<close>

definition reduce :: "('b \<Rightarrow> 'a \<Rightarrow> 'b) \<Rightarrow> 'b \<Rightarrow> 'a list \<Rightarrow> 'b" where
  "reduce f seed arr = foldl f seed arr"

text \<open>
  \<open>startsWith(haystack, needle)\<close> is \<open>haystack.lastIndexOf(needle, 0) === 0\<close>: the
  needle is found at position \<open>0\<close>.
\<close>

definition startsWith :: "string \<Rightarrow> string \<Rightarrow> bool" where
  "startsWith haystack needle = (take (length needle) haystack = needle)"

definition isAncestorTopic :: "string \<Rightarrow> node \<Rightarrow> bool" where
  "isAncestorTopic topic node =
     (let nodeTopic = getTopic node in
        topic = nodeTopic \<or> startsWith topic (nodeTopic @ ''.'') \<or> nodeTopic = '''')"

text \<open>
  The tree is owned by the broker and its nodes are mutated in place. A reference to a
  node is modelled by the path of child indices that leads to it from the root;
  \<open>nodeAt\<close> reads the node behind a reference and \<open>updateAt\<close> mutates it. The paths
  built by the functions below always lead to a node.
\<close>

fun nodeAt :: "node \<Rightarrow> nat list \<Rightarrow> node" where
  "nodeAt tree [] = tree"
| "nodeAt tree (c # path) =
     (if c < length (n_children tree) then nodeAt (n_children tree ! c) path else tree)"

fun updateAt :: "nat list \<Rightarrow> (node \<Rightarrow> node) \<Rightarrow> node \<Rightarrow> node" where
  "updateAt [] f tree = f tree"
| "updateAt (c # path) f (Node topic subscriptions children persisted) =
     Node topic subscriptions
       (if c < length children then children[c := updateAt path f (children ! c)] else children)
       persisted"

definition set_subscriptions :: "subscription list \<Rightarrow> node \<Rightarrow> node" where
  "set_subscriptions ss node = Node (n_topic node) ss (n_children node) (n_persisted node)"

definition set_children :: "node list \<Rightarrow> node \<Rightarrow> node" where
  "set_children cs node = Node (n_topic node) (n_subscriptions node) cs (n_persisted node)"

definition set_persisted :: "message list \<Rightarrow> node \<Rightarrow> node" where
  "set_persisted ps node = Node (n_topic node) (n_subscriptions node) (n_children node) ps"

text \<open>
  \<open>ancestorSearch\<close> returns the node found; the model returns the reference to it,
  relative to \<open>tree\<close>.
\<close>

lemma size_nth_opt_child [termination_simp]:
  "nth_opt (n_children tree) i = Some child \<Longrightarrow> size child < size tree"
proof (cases tree)
  case (Node x1 x2 x3 x4)
  assume a: "nth_opt (n_children tree) i = Some child"
  then have "child \<in> set x3" using Node by (auto simp: nth_opt_def split: if_splits)
  then have "size child \<le> size_list size x3" by (rule size_list_estimation') simp
  then show ?thesis using Node by simp
qed

lemma size_node_pos [termination_simp]: "0 < size (tree :: node)"
  by (cases tree) simp

function ancestorSearch ::
  "(node \<Rightarrow> string) \<Rightarrow> string \<Rightarrow> (string \<Rightarrow> node \<Rightarrow> bool) \<Rightarrow> node \<Rightarrow> nat list" where
  "ancestorSearch getValue v isAncestor tree =
     (if getValue tree = v then []
      else
        (let index = int (binaryIndexBy getValue v (n_children tree));
             child1 = nth_opt (n_children tree) index;
             child0 = nth_opt (n_children tree) (index - 1)
         in
           (case child1 of
              Some c1 \<Rightarrow>
                if isAncestor v c1 then nat index # ancestorSearch getValue v isAncestor c1
                else
                  (case child0 of
                     Some c0 \<Rightarrow>
                       if isAncestor v c0
                       then nat (index - 1) # ancestorSearch getValue v isAncestor c0
                       else []
                   | None \<Rightarrow> [])
            | None \<Rightarrow>
                (case child0 of
                   Some c0 \<Rightarrow>
                     if isAncestor v c0
                     then nat (index - 1) # ancestorSearch getValue v isAncestor c0
                     else []
                 | None \<Rightarrow> []))))"
  by pat_completeness auto
termination
  by (relation "measure (\<lambda>(getValue, v, isAncestor, tree). size tree)")
    (auto simp: size_nth_opt_child)

declare ancestorSearch.simps [simp del]

definition ancestorTopicSearch :: "string \<Rightarrow> node \<Rightarrow> nat list" where
  "ancestorTopicSearch topic node = ancestorSearch getTopic topic isAncestorTopic node"

text \<open>
  \<open>findLineage\<close> returns the nodes on the way down; the model returns the references
  to them, relative to \<open>tree\<close>. The argument \<open>tree\<close> may be \<open>undefined\<close>.
\<close>

function findLineage ::
  "(node \<Rightarrow> string) \<Rightarrow> (string \<Rightarrow> node \<Rightarrow> bool) \<Rightarrow> string \<Rightarrow> node option \<Rightarrow> nat list list" where
  "findLineage getValue isAncestor v None = []"
| "findLineage getValue isAncestor v (Some tree) =
     (if isAncestor v tree then
        (let childIndex = int (binaryIndexBy getValue v (n_children tree));
             foundChild = nth_opt (n_children tree) childIndex;
             exact = (case foundChild of Some c \<Rightarrow> getValue c = v | None \<Rightarrow> False);
             pos = (if exact then childIndex else childIndex - 1);
             child = nth_opt (n_children tree) pos
         in [] # map (\<lambda>path. nat pos # path) (findLineage getValue isAncestor v child))
      else [])"
  by pat_completeness auto
termination
  by (relation "measure (\<lambda>(getValue, isAncestor, v, tree).
        case tree of None \<Rightarrow> 0 | Some t \<Rightarrow> size t)")
    (auto simp: size_nth_opt_child size_node_pos split: option.splits)

declare findLineage.simps [simp del]

text \<open>\<open>descendents\<close>: the node, then the descendents of each child, in order.\<close>

lemma size_child [termination_simp]:
  "child \<in> set (n_children node) \<Longrightarrow> size child < size node"
proof (cases node)
  case (Node x1 x2 x3 x4)
  assume "child \<in> set (n_children node)"
  then have "child \<in> set x3" using Node by simp
  then have "size child \<le> size_list size x3" by (rule size_list_estimation') simp
  then show ?thesis using Node by simp
qed

fun descendents :: "node \<Rightarrow> node list" where
  "descendents node = foldl (\<lambda>arr next. arr @ descendents next) [node] (n_children node)"

declare descendents.simps [simp del]

text \<open>\<open>str.split('.')\<close>: the pieces between the separators; one empty piece for the
  empty string.\<close>

fun split :: "char \<Rightarrow> string \<Rightarrow> string list" where
  "split c [] = [[]]"
| "split c (x # xs) =
     (if x = c then [] # split c xs
      else (case split c xs of [] \<Rightarrow> [[x]] | w # ws \<Rightarrow> (x # w) # ws))"

text \<open>\<open>str.replace(/^\./, '')\<close>: a leading dot is removed.\<close>

definition replace_leading_dot :: "string \<Rightarrow> string" where
  "replace_leading_dot str = (case str of [] \<Rightarrow> [] | x # xs \<Rightarrow> if x = CHR ''.'' then xs else x # xs)"

definition appendPrefixedTopic :: "string list \<Rightarrow> string \<Rightarrow> string list" where
  "appendPrefixedTopic arr topic =
     (let prefix = (if last arr = '''' then '''' else last arr @ ''.'') in arr @ [prefix @ topic])"

text \<open>
  \<open>addChild\<close> splices the new child into \<open>tree.children\<close> and returns the new child:
  the model takes the root and the reference to \<open>tree\<close>, and returns the new root and
  the reference to the new child.
\<close>

definition addChild ::
  "(node \<Rightarrow> string) \<Rightarrow> node \<Rightarrow> node \<times> nat list \<Rightarrow> node \<times> nat list" where
  "addChild getValue newChild tree =
     (let root = fst tree; ref = snd tree;
          index = binaryIndexBy getValue (getValue newChild) (n_children (nodeAt root ref))
      in (updateAt ref (\<lambda>t. set_children (splice_in index newChild (n_children t)) t) root,
          ref @ [index]))"

definition addChildTopic :: "node \<times> nat list \<Rightarrow> node \<Rightarrow> node \<times> nat list" where
  "addChildTopic tree child = addChild getTopic child tree"

definition addFamilyLine ::
  "(node \<times> nat list \<Rightarrow> node \<Rightarrow> node \<times> nat list) \<Rightarrow> node list \<Rightarrow> node \<times> nat list
     \<Rightarrow> node \<times> nat list" where
  "addFamilyLine addChildToTree line tree = reduce addChildToTree tree line"

definition addTopicLine :: "string \<Rightarrow> node \<times> nat list \<Rightarrow> node \<times> nat list" where
  "addTopicLine topic ancestor =
     (let ancestorTopic = n_topic (nodeAt (fst ancestor) (snd ancestor));
          additionalTopics =
            (if ancestorTopic \<noteq> topic
             then reduce appendPrefixedTopic [ancestorTopic]
                    (split CHR ''.'' (replace_leading_dot (drop (length ancestorTopic) topic)))
             else [])
      in addFamilyLine addChildTopic (map createNode (drop 1 additionalTopics)) ancestor)"

text \<open>\<open>insert\<close>: the item goes in front of the first element that is not smaller.\<close>

definition insert_js :: "('a \<Rightarrow> 'k::ord) \<Rightarrow> 'a \<Rightarrow> 'a list \<Rightarrow> 'a list" where
  "insert_js getValue item list = splice_in (binaryIndexBy getValue (getValue item) list) item list"

section \<open>The resolver and the dispatcher\<close>

text \<open>
  The state of the publication promise, and the resolver. The record holds the fields of
  the resolver (\<open>settled\<close>, \<open>fulfilledValues\<close>, \<open>rejectedValues\<close>, \<open>i\<close>, \<open>resume\<close>) and
  those of its promise (\<open>fulfilled\<close>, \<open>rejected\<close>, \<open>pending\<close>, \<open>token\<close>, and the state of
  the promise itself). \<open>r_invoked\<close> is the trace of the calls of \<open>subscriptionInvoker\<close>,
  in the order in which they are made, each with the future it returned.

  The promise is resolved with an array object, not with a copy of its elements: with
  the array \<open>resolver.fulfilledValues\<close> or \<open>resolver.rejectedValues\<close> itself, into
  which the callbacks of later settlements still push under \<open>updateAfterSettlement\<close>,
  or with the new array that \<open>concat\<close> builds.
\<close>

datatype array_ref = FulfilledValues | RejectedValues | NewArray "jsval list"

datatype publication = Unsettled | FulfilledWith array_ref | RejectedWith array_ref

record resume_info =
  r_topic :: string
  r_data :: jsval
  r_subscriptions :: "subscription finger list"

record resolver =
  r_settled :: bool
  r_fulfilledValues :: "jsval list"
  r_rejectedValues :: "jsval list"
  r_i :: int
  r_resume :: "resume_info option"
  p_fulfilled :: int
  p_rejected :: int
  p_pending :: int
  p_token :: "token option"
  p_state :: publication
  r_invoked :: "(subscription \<times> settlement) list"

definition createResolver :: resolver where
  "createResolver =
     \<lparr>r_settled = False, r_fulfilledValues = [], r_rejectedValues = [], r_i = 0,
      r_resume = None, p_fulfilled = 0, p_rejected = 0, p_pending = 0, p_token = None,
      p_state = Unsettled, r_invoked = []\<rparr>"

text \<open>The elements that an array holds, read in a given state of the resolver.\<close>

definition array_of :: "resolver \<Rightarrow> array_ref \<Rightarrow> jsval list" where
  "array_of resolver a =
     (case a of
        FulfilledValues \<Rightarrow> r_fulfilledValues resolver
      | RejectedValues \<Rightarrow> r_rejectedValues resolver
      | NewArray xs \<Rightarrow> xs)"

text \<open>\<open>evaluateLatch\<close>; the value it returns is not used by its callers.\<close>

definition evaluateLatch :: "resolver \<Rightarrow> options \<Rightarrow> resolver" where
  "evaluateLatch resolver options =
     (let settlementLatch = to_boolean (opt options ''settlementLatch'');
          latch = to_number (opt options ''latch'');
          fulfilled = num (p_fulfilled resolver);
          settled = num (p_fulfilled resolver + p_rejected resolver);
          maxFulfilled = num (p_fulfilled resolver + p_pending resolver);
          total = num (p_fulfilled resolver + p_pending resolver + p_rejected resolver)
      in
        if r_settled resolver then resolver
        else if \<not> settlementLatch \<and> latch \<ge> Fin 1 \<and> maxFulfilled < latch
          \<or> \<not> settlementLatch \<and> latch < Fin 1 \<and> js_div maxFulfilled total < latch
          \<or> settlementLatch \<and> latch \<ge> Fin 1 \<and> total < latch
          \<or> settlementLatch \<and> latch < Fin 1 \<and> total = Fin 0
        then resolver\<lparr>r_settled := True, p_state := RejectedWith RejectedValues\<rparr>
        else if \<not> settlementLatch \<and> latch \<ge> Fin 1 \<and> fulfilled \<ge> latch
          \<or> \<not> settlementLatch \<and> latch < Fin 1 \<and> js_div fulfilled total \<ge> latch
          \<or> settlementLatch \<and> latch \<ge> Fin 1 \<and> settled \<ge> latch
          \<or> settlementLatch \<and> latch < Fin 1 \<and> js_div settled total \<ge> latch
        then resolver\<lparr>r_settled := True,
               p_state := FulfilledWith
                 (if settlementLatch
                  then NewArray (r_fulfilledValues resolver @ r_rejectedValues resolver)
                  else FulfilledValues)\<rparr>
        else resolver)"

text \<open>
  The latch rules as the specification words them, on the counters \<open>F\<close>, \<open>R\<close>, \<open>P\<close>
  and the latch \<open>L\<close> (for the comparison with \<open>evaluateLatch\<close>), with \<open>S = F + R\<close>,
  \<open>T = F + P + R\<close> and \<open>M = F + P\<close>. The counters are integers and the latch is a
  number; \<open>spec_quotient a b\<close> is the number \<open>a / b\<close> for two counters: the double
  nearest to the fraction, an infinity for a counter that is not zero over zero, and
  \<open>NaN\<close> for zero over zero. The comparisons are those of numbers, false on \<open>NaN\<close>.
\<close>

definition spec_quotient :: "int \<Rightarrow> int \<Rightarrow> jsnum" where
  "spec_quotient a b =
     (if b = 0 then (if a = 0 then NaN else if 0 < a then PInf else NInf)
      else to_double (of_int a / of_int b))"

definition spec_rejects :: "bool \<Rightarrow> jsnum \<Rightarrow> int \<Rightarrow> int \<Rightarrow> int \<Rightarrow> bool" where
  "spec_rejects settlementLatch L F R P =
     (let T = F + P + R; M = F + P in
        (\<not> settlementLatch \<and> L \<ge> Fin 1 \<and> num M < L)
      \<or> (\<not> settlementLatch \<and> L < Fin 1 \<and> spec_quotient M T < L)
      \<or> (settlementLatch \<and> L \<ge> Fin 1 \<and> num T < L)
      \<or> (settlementLatch \<and> L < Fin 1 \<and> T = 0))"

definition spec_fulfills :: "bool \<Rightarrow> jsnum \<Rightarrow> int \<Rightarrow> int \<Rightarrow> int \<Rightarrow> bool" where
  "spec_fulfills settlementLatch L F R P =
     (let S = F + R; T = F + P + R in
        (\<not> settlementLatch \<and> L \<ge> Fin 1 \<and> num F \<ge> L)
      \<or> (\<not> settlementLatch \<and> L < Fin 1 \<and> spec_quotient F T \<ge> L)
      \<or> (settlementLatch \<and> L \<ge> Fin 1 \<and> num S \<ge> L)
      \<or> (settlementLatch \<and> L < Fin 1 \<and> spec_quotient S T \<ge> L))"

text \<open>The value of a \<open>TypeError\<close> object caught by a \<open>try\<close>.\<close>

definition type_error_value :: jsval where
  "type_error_value = JErrorObj ''TypeError''"

text \<open>
  \<open>subscriptionInvoker\<close> returns a promise; the model returns how this promise ends up.
  With \<open>fn.length === 3\<close> the function is called with the callback, inside the executor
  of a new promise: the first call of the callback settles the promise, and an exception
  of the body rejects it if the callback was not called. Otherwise the function is
  called with \<open>(data, topic)\<close>: a body that calls its third parameter raises a
  \<open>TypeError\<close> there, which the \<open>try\<close> catches like any other exception.
\<close>

definition subscriptionInvoker :: "subscription \<Rightarrow> jsval \<Rightarrow> string \<Rightarrow> settlement" where
  "subscriptionInvoker subscription d topic =
     (let b = fn_body (s_fn subscription) d (JStr topic) in
        if fn_length (s_fn subscription) = 3 then
          (case calls_done b of
             Some (err, succ) \<Rightarrow> if truthy err then Rejected err else Fulfilled succ
           | None \<Rightarrow> (case finish b of Throws e \<Rightarrow> Rejected e | _ \<Rightarrow> Pending))
        else
          (case calls_done b of
             Some c \<Rightarrow> Rejected type_error_value
           | None \<Rightarrow>
               (case finish b of
                  Throws e \<Rightarrow> Rejected e
                | ReturnsThenable s \<Rightarrow> s
                | Returns result \<Rightarrow> Fulfilled result)))"

text \<open>
  \<open>resumeSubscriptionDispatcher\<close>: the loop over \<open>resolver.i\<close>. An element of
  \<open>subscriptions\<close> that is the sentinel \<open>SYMBOL_NOTHING\<close> has no property \<open>suspended\<close>
  and no property \<open>fn\<close>: \<open>pending\<close> is incremented and \<open>subscriptionInvoker\<close> raises a
  \<open>TypeError\<close>, which ends the loop. The model returns the exception, if any, with the
  resolver.
\<close>

function resumeSubscriptionDispatcher ::
  "string \<Rightarrow> jsval \<Rightarrow> options \<Rightarrow> subscription finger list \<Rightarrow> resolver
     \<Rightarrow> error option \<times> resolver" where
  "resumeSubscriptionDispatcher topic d options subscriptions resolver =
     (if r_i resolver \<ge> 0 \<and> num (p_pending resolver) < to_number (opt options ''semaphor'') then
        (case nth_opt subscriptions (r_i resolver) of
           None \<Rightarrow> (Some TypeError, resolver)
         | Some SYMBOL_NOTHING \<Rightarrow>
             (Some TypeError, resolver\<lparr>p_pending := p_pending resolver + 1\<rparr>)
         | Some (Item subscription) \<Rightarrow>
             if \<not> s_suspended subscription then
               resumeSubscriptionDispatcher topic d options subscriptions
                 (resolver\<lparr>p_pending := p_pending resolver + 1,
                    r_invoked := r_invoked resolver
                      @ [(subscription, subscriptionInvoker subscription d topic)],
                    r_i := r_i resolver - 1\<rparr>)
             else
               resumeSubscriptionDispatcher topic d options subscriptions
                 (resolver\<lparr>r_i := r_i resolver - 1\<rparr>))
      else (None, resolver))"
  by pat_completeness auto
termination
  by (relation "measure (\<lambda>(topic, d, options, subscriptions, resolver). nat (r_i resolver + 1))")
    auto

declare resumeSubscriptionDispatcher.simps [simp del]

text \<open>
  \<open>resolveUse(appendList, increment, options, resolver)\<close> is the callback that a
  settled invocation calls with its value. An exception of the loop it resumes does not
  leave the callback's promise.
\<close>

definition resolveUse :: "string \<Rightarrow> string \<Rightarrow> options \<Rightarrow> resolver \<Rightarrow> jsval \<Rightarrow> resolver" where
  "resolveUse appendList increment options resolver v =
     (if r_settled resolver \<and> \<not> to_boolean (opt options ''updateAfterSettlement'') then resolver
      else
        (let r1 =
               (if appendList = ''fulfilledValues''
                then resolver\<lparr>r_fulfilledValues := r_fulfilledValues resolver @ [v]\<rparr>
                else if appendList = ''rejectedValues''
                then resolver\<lparr>r_rejectedValues := r_rejectedValues resolver @ [v]\<rparr>
                else resolver);
             r2 =
               (if increment = ''fulfilled'' then r1\<lparr>p_fulfilled := p_fulfilled r1 + 1\<rparr>
                else if increment = ''rejected'' then r1\<lparr>p_rejected := p_rejected r1 + 1\<rparr>
                else r1);
             r3 = r2\<lparr>p_pending := p_pending r2 - 1\<rparr>
         in
           if r_i r3 \<ge> 0 then
             (case r_resume r3 of
                None \<Rightarrow> r3
              | Some resume \<Rightarrow>
                  snd (resumeSubscriptionDispatcher (r_topic resume) (r_data resume) options
                         (r_subscriptions resume) r3))
           else evaluateLatch r3 options))"

definition fulfill :: "options \<Rightarrow> resolver \<Rightarrow> jsval \<Rightarrow> resolver" where
  "fulfill options resolver v = resolveUse ''fulfilledValues'' ''fulfilled'' options resolver v"

definition reject :: "options \<Rightarrow> resolver \<Rightarrow> jsval \<Rightarrow> resolver" where
  "reject options resolver v = resolveUse ''rejectedValues'' ''rejected'' options resolver v"

text \<open>
  An invocation that settles calls \<open>fulfill\<close> or \<open>reject\<close> (the callbacks registered by
  \<open>then\<close>); one that stays pending calls none. \<open>settle_all\<close> runs the callbacks of a
  sequence of settlements, in the order in which they happen.
\<close>

fun settle :: "options \<Rightarrow> resolver \<Rightarrow> settlement \<Rightarrow> resolver" where
  "settle options resolver (Fulfilled v) = fulfill options resolver v"
| "settle options resolver (Rejected v) = reject options resolver v"
| "settle options resolver Pending = resolver"

definition settle_all :: "options \<Rightarrow> resolver \<Rightarrow> settlement list \<Rightarrow> resolver" where
  "settle_all options resolver events = foldl (settle options) resolver events"

definition subscriptionDispatcher ::
  "string \<Rightarrow> jsval \<Rightarrow> options \<Rightarrow> subscription finger list \<Rightarrow> error option \<times> resolver" where
  "subscriptionDispatcher topic d options subscriptions =
     (let resolver = createResolver
            \<lparr>r_i := int (length subscriptions) - 1,
             r_resume := Some \<lparr>r_topic = topic, r_data = d, r_subscriptions = subscriptions\<rparr>\<rparr>
      in
        (case resumeSubscriptionDispatcher topic d options subscriptions resolver of
           (Some e, r) \<Rightarrow> (Some e, r)
         | (None, r) \<Rightarrow> (None, evaluateLatch r options)))"

section \<open>The broker\<close>

text \<open>
  The broker: its tree \<open>_topics\<close>, its options and the counter of its identifier
  generator (\<open>mkGenerator\<close> starts at \<open>-9007199254740992\<close> and returns \<open>i++\<close>; the
  identifiers are exact integers for the first \<open>2^54\<close> calls).
\<close>

record broker =
  b_topics :: node
  b_options :: options
  b_id :: int

text \<open>
  The literal \<open>0.9999999999999999\<close> of the source denotes the double \<open>1 - 2^-53\<close>,
  which is \<open>9007199254740991 / 9007199254740992\<close>.
\<close>

definition create :: broker where
  "create =
     \<lparr>b_topics = createNode [],
      b_options = map_of
        [(''persist'', OBool False),
         (''sync'', OBool False),
         (''preventBubble'', OBool False),
         (''latch'', ONum (Fin (9007199254740991 / 9007199254740992))),
         (''settlementLatch'', OBool False),
         (''semaphor'', ONum PInf),
         (''updateAfterSettlement'', OBool False)],
      b_id = - 9007199254740992\<rparr>"

definition typeof :: "jsval \<Rightarrow> string" where
  "typeof v =
     (case v of
        JUndefined \<Rightarrow> ''undefined''
      | JNull \<Rightarrow> ''object''
      | JBool b \<Rightarrow> ''boolean''
      | JNum n \<Rightarrow> ''number''
      | JStr s \<Rightarrow> ''string''
      | JErrorObj m \<Rightarrow> ''object''
      | JObject a \<Rightarrow> ''object'')"

text \<open>\<open>assert\<close>: the exception it throws, if any.\<close>

definition assert :: "string \<Rightarrow> string \<Rightarrow> string \<Rightarrow> string \<Rightarrow> string \<Rightarrow> error option" where
  "assert v expected method type identifier =
     (if v \<noteq> expected
      then Some (Error (method @ '' only accepts '' @ type @ '' as '' @ identifier))
      else None)"

text \<open>\<open>createSubscription\<close>, with the identifier that \<open>state.id()\<close> returns.\<close>

definition createSubscription :: "int \<Rightarrow> subscriber \<Rightarrow> options \<Rightarrow> jsval \<Rightarrow> subscription" where
  "createSubscription ident fn options ctx =
     \<lparr>s_id = ident,
      s_fn = (case fn of SFunction f \<Rightarrow> f | _ \<Rightarrow> noop),
      s_suspended = False,
      s_priority =
        (let p = to_number (opt options ''priority'') in if p = NaN \<or> p = Fin 0 then Fin 0 else p),
      s_context = (if truthy ctx then ctx else JNull)\<rparr>"

text \<open>
  The loop of \<open>subscribe\<close> over the persisted messages. It reads \<open>suspended\<close>, \<open>call\<close>
  and \<open>context\<close> on the \<open>subscription\<close> argument of \<open>subscribe\<close> itself: reading a
  property of \<open>undefined\<close> or \<open>null\<close> raises a \<open>TypeError\<close>, and so does calling the
  missing \<open>call\<close> of a value that is not a function. The function is called with two
  arguments, outside any \<open>try\<close>. The model returns the exception, if any, and the trace
  of the calls \<open>(data, topic)\<close> made.
\<close>

fun notifyPersisted ::
  "subscriber \<Rightarrow> message finger list \<Rightarrow> (jsval \<times> jsval) list
     \<Rightarrow> error option \<times> (jsval \<times> jsval) list" where
  "notifyPersisted subscription [] calls = (None, calls)"
| "notifyPersisted subscription (persisted # rest) calls =
     (case subscription of
        SNullish \<Rightarrow> (Some TypeError, calls)
      | SNotCallable \<Rightarrow> (Some TypeError, calls)
      | SFunction f \<Rightarrow>
          if fn_suspended f then notifyPersisted subscription rest calls
          else
            (let args =
                   (case persisted of
                      Item m \<Rightarrow> (m_data m, JStr (m_topic m))
                    | SYMBOL_NOTHING \<Rightarrow> (JUndefined, JUndefined));
                 b = fn_body f (fst args) (snd args)
             in
               (case calls_done b of
                  Some c \<Rightarrow> (Some TypeError, calls @ [args])
                | None \<Rightarrow>
                    (case finish b of
                       Throws e \<Rightarrow> (Some (Thrown e), calls @ [args])
                     | _ \<Rightarrow> notifyPersisted subscription rest (calls @ [args])))))"

text \<open>
  \<open>subscribe\<close>. The model returns the exception or the token, the broker after the
  call (an exception does not undo the mutations made before it), and the trace of the
  calls of the subscriber.
\<close>

definition subscribe ::
  "broker \<Rightarrow> jsval \<Rightarrow> subscriber \<Rightarrow> options \<Rightarrow> jsval
     \<Rightarrow> (error + token) \<times> broker \<times> (jsval \<times> jsval) list" where
  "subscribe state topicArg subscription optionsArg ctx =
     (case assert (typeof topicArg) ''string'' ''Arbiter.subscribe'' ''strings'' ''topics'' of
        Some e \<Rightarrow> (Inl e, state, [])
      | None \<Rightarrow>
         (case topicArg of
            JStr topic \<Rightarrow>
              (let options = merge (b_options state) optionsArg;
                   ancestor = addTopicLine topic
                     (b_topics state, ancestorTopicSearch topic (b_topics state));
                   node = createSubscription (b_id state) subscription options ctx;
                   topics = updateAt (snd ancestor)
                     (\<lambda>t. set_subscriptions (insert_js getPriority node (n_subscriptions t)) t)
                     (fst ancestor);
                   state' = state\<lparr>b_topics := topics, b_id := b_id state + 1\<rparr>;
                   subscriptionToken =
                     \<lparr>t_topic = topic, t_id = s_id node, t_priority = Some (s_priority node)\<rparr>
               in
                 if \<not> to_boolean (opt options ''ignorePersisted'') then
                   (let persistedDescendents =
                          map getPersisted (descendents (nodeAt topics (snd ancestor)))
                    in
                      (case mergeBy getFingerArrayOrder persistedDescendents of
                         Inl e \<Rightarrow> (Inl e, state', [])
                       | Inr persistedMessages \<Rightarrow>
                           (case notifyPersisted subscription persistedMessages [] of
                              (Some e, calls) \<Rightarrow> (Inl e, state', calls)
                            | (None, calls) \<Rightarrow> (Inr subscriptionToken, state', calls))))
                 else (Inr subscriptionToken, state', []))
          | _ \<Rightarrow> (Inl TypeError, state, [])))"

text \<open>
  \<open>hierarchicalTopicDispatcher\<close> returns the promise of the resolver; the model returns
  the resolver (or the exception) and the broker after the call. \<open>lineage\<close> holds the
  references to the nodes; reading a property of the last element of an empty lineage
  raises a \<open>TypeError\<close>.
\<close>

definition hierarchicalTopicDispatcher ::
  "broker \<Rightarrow> string \<Rightarrow> jsval \<Rightarrow> options \<Rightarrow> (error + resolver) \<times> broker" where
  "hierarchicalTopicDispatcher state topic d options =
     (let lineage = findLineage getTopic isAncestorTopic topic (Some (b_topics state));
          topicNode = (if lineage = [] then None else Some (last lineage));
          subscriptions =
            (if to_boolean (opt options ''preventBubble'') then
               (case topicNode of
                  None \<Rightarrow> Inl TypeError
                | Some ref \<Rightarrow>
                    if n_topic (nodeAt (b_topics state) ref) = topic
                    then Inr (map Item (n_subscriptions (nodeAt (b_topics state) ref)))
                    else Inr [])
             else mergeBy getFingerArrayPriority
                    (map (\<lambda>ref. getSubscriptions (nodeAt (b_topics state) ref)) lineage))
      in
        (case subscriptions of
           Inl e \<Rightarrow> (Inl e, state)
         | Inr subs \<Rightarrow>
             (case subscriptionDispatcher topic d options subs of
                (Some e, r) \<Rightarrow> (Inl e, state)
              | (None, fulfilledPromise) \<Rightarrow>
                  if to_boolean (opt options ''persist'') then
                    (case topicNode of
                       None \<Rightarrow> (Inl TypeError, state\<lparr>b_id := b_id state + 1\<rparr>)
                     | Some ref \<Rightarrow>
                         (let ident = b_id state;
                              added = addTopicLine topic (b_topics state, ref);
                              topics = updateAt (snd added)
                                (\<lambda>t. set_persisted
                                   (n_persisted t @ [\<lparr>m_topic = topic, m_data = d, m_order = ident\<rparr>]) t)
                                (fst added)
                          in (Inr (fulfilledPromise
                                \<lparr>p_token := Some \<lparr>t_topic = topic, t_id = ident, t_priority = None\<rparr>\<rparr>),
                              state\<lparr>b_topics := topics, b_id := b_id state + 1\<rparr>)))
                  else (Inr fulfilledPromise, state))))"

text \<open>
  \<open>async(f, args)\<close> schedules the call \<open>f.apply(null, args)\<close> for a later turn and has
  no \<open>return\<close> statement: its value is \<open>undefined\<close>. \<open>publish\<close> returns what it
  returns. The model of \<open>publish\<close> returns the exception or the value returned, the
  broker after the call, and the calls scheduled for later (the arguments \<open>topic\<close>,
  \<open>data\<close>, \<open>options\<close> of \<open>hierarchicalTopicDispatcher\<close>; its first argument is the
  broker, as it is when the call runs).
\<close>

datatype publish_return = ReturnsPromise resolver | ReturnsUndefined

type_synonym task = "string \<times> jsval \<times> options"

definition async :: "task \<Rightarrow> publish_return \<times> task list" where
  "async args = (ReturnsUndefined, [args])"

definition publish ::
  "broker \<Rightarrow> jsval \<Rightarrow> jsval \<Rightarrow> options \<Rightarrow> (error + publish_return) \<times> broker \<times> task list" where
  "publish state topicArg d optionsArg =
     (case assert (typeof topicArg) ''string'' ''Arbiter.publish'' ''strings'' ''topics'' of
        Some e \<Rightarrow> (Inl e, state, [])
      | None \<Rightarrow>
         (case topicArg of
            JStr topic \<Rightarrow>
              (let options = merge (b_options state) optionsArg in
                 if to_boolean (opt options ''sync'') then
                   (case hierarchicalTopicDispatcher state topic d options of
                      (Inl e, state') \<Rightarrow> (Inl e, state', [])
                    | (Inr promise, state') \<Rightarrow> (Inr (ReturnsPromise promise), state', []))
                 else
                   (case async (topic, d, options) of
                      (returned, scheduled) \<Rightarrow> (Inr returned, state, scheduled)))
          | _ \<Rightarrow> (Inl TypeError, state, [])))"

text \<open>The scheduled call, when its turn comes: the promise it returns is dropped.\<close>

definition run_task :: "broker \<Rightarrow> task \<Rightarrow> (error + resolver) \<times> broker" where
  "run_task state args =
     (case args of (topic, d, options) \<Rightarrow> hierarchicalTopicDispatcher state topic d options)"

text \<open>
  \<open>empty('persisted', node)\<close> on every node of \<open>descendents(node)\<close>: the persisted
  list of the node and of each of its descendants is emptied.
\<close>

fun empty_persisted :: "node \<Rightarrow> node" where
  "empty_persisted (Node topic subscriptions children persisted) =
     Node topic subscriptions (map empty_persisted children) []"

text \<open>
  \<open>removePersisted(topics, token)\<close>, where \<open>token\<close> is a topic or a token
  \<open>{topic, id}\<close>. The model returns the boolean and the tree after the call.
\<close>

datatype token_arg = TopicString string | TokenObject token

definition removePersisted :: "node \<Rightarrow> token_arg \<Rightarrow> bool \<times> node" where
  "removePersisted topics tk =
     (case tk of
        TopicString topic \<Rightarrow>
          (let ref = ancestorTopicSearch topic topics in
             if n_topic (nodeAt topics ref) = topic
             then (True, updateAt ref empty_persisted topics)
             else (False, topics))
      | TokenObject token \<Rightarrow>
          (let tokenTopic = t_topic token;
               ref = ancestorTopicSearch tokenTopic topics;
               node = nodeAt topics ref
           in
             if n_topic node \<noteq> tokenTopic then (False, topics)
             else
               (let ident = t_id token;
                    persisted = n_persisted node;
                    idx = binaryIndexBy getId_persisted (num ident) persisted
                in
                  (case nth_opt persisted (int idx) of
                     Some persistedMessage \<Rightarrow>
                       if m_order persistedMessage = ident
                       then (True, updateAt ref (set_persisted (splice_out idx persisted)) topics)
                       else (False, topics)
                   | None \<Rightarrow> (False, topics)))))"

section \<open>Example inputs\<close>

definition merge_example :: "message list list" where
  "merge_example =
     [[\<lparr>m_topic = ''x.y'', m_data = JNum (Fin 1), m_order = 3\<rparr>,
       \<lparr>m_topic = ''x.y'', m_data = JNum (Fin 2), m_order = 7\<rparr>],
      [],
      [\<lparr>m_topic = ''x'', m_data = JNull, m_order = 5\<rparr>]]"

definition latch_example :: resolver where
  "latch_example = createResolver
     \<lparr>r_fulfilledValues := [JNum (Fin 1), JNum (Fin 2)], r_rejectedValues := [JStr ''no''],
      r_i := - 1, p_fulfilled := 2, p_rejected := 1, p_pending := 1\<rparr>"

text \<open>
  The options \<open>{latch: 0.2}\<close> (the literal \<open>0.2\<close> denotes the double
  \<open>3602879701896397 / 2^54\<close>), and a resolver with one invocation fulfilled and four
  pending.
\<close>

definition latch_fifth :: options where
  "latch_fifth = map_of [(''latch'', ONum (Fin (3602879701896397 / 18014398509481984)))]"

definition fifth_example :: resolver where
  "fifth_example = createResolver
     \<lparr>r_fulfilledValues := [JStr ''hi''], r_i := - 1, p_fulfilled := 1, p_pending := 4\<rparr>"

definition four_parameters :: jsfun where
  "four_parameters = \<lparr>fn_length = 4, fn_suspended = False,
     fn_body = (\<lambda>d t. \<lparr>calls_done = Some (JNull, JStr ''hi''), finish = Returns JUndefined\<rparr>)\<rparr>"

definition sync_persist :: options where
  "sync_persist = map_of [(''sync'', OBool True), (''persist'', OBool True)]"

fun persisted_sorted :: "node \<Rightarrow> bool" where
  "persisted_sorted (Node topic subscriptions children persisted) =
     (sorted (map m_order persisted) \<and> list_all persisted_sorted children)"

text \<open>A subscriber function that returns normally on a message.\<close>

definition returns_normally :: "jsfun \<Rightarrow> message \<Rightarrow> bool" where
  "returns_normally f m =
     (let b = fn_body f (m_data m) (JStr (m_topic m)) in
        calls_done b = None \<and> (case finish b of Throws e \<Rightarrow> False | _ \<Rightarrow> True))"

definition delivery :: "message \<Rightarrow> jsval \<times> jsval" where
  "delivery m = (m_data m, JStr (m_topic m))"

definition subscription_ref :: "broker \<Rightarrow> string \<Rightarrow> nat list" where
  "subscription_ref state topic =
     snd (addTopicLine topic (b_topics state, ancestorTopicSearch topic (b_topics state)))"

definition replay_tree :: node where
  "replay_tree =
     Node [] []
       [Node ''x'' []
          [Node ''x.y'' [] []
             [\<lparr>m_topic = ''x.y'', m_data = JNum (Fin 1), m_order = - 9007199254740992\<rparr>]]
          [\<lparr>m_topic = ''x'', m_data = JNum (Fin 2), m_order = - 9007199254740991\<rparr>,
           \<lparr>m_topic = ''x'', m_data = JNum (Fin 3), m_order = - 9007199254740990\<rparr>]]
       []"

definition replay_state :: broker where
  "replay_state = create\<lparr>b_topics := replay_tree, b_id := - 9007199254740989\<rparr>"

definition echo :: jsfun where
  "echo = \<lparr>fn_length = 2, fn_suspended = False,
     fn_body = (\<lambda>d t. \<lparr>calls_done = None, finish = Returns d\<rparr>)\<rparr>"

definition thrower :: jsfun where
  "thrower = \<lparr>fn_length = 2, fn_suspended = False,
     fn_body = (\<lambda>d t. \<lparr>calls_done = None, finish = Throws (JStr ''bye'')\<rparr>)\<rparr>"

definition launch_inv :: "subscription list \<Rightarrow> string \<Rightarrow> jsval \<Rightarrow> resolver \<Rightarrow> bool" where
  "launch_inv S topic d r =
     (- 1 \<le> r_i r \<and> r_i r < int (length S)
      \<and> r_resume r = Some \<lparr>r_topic = topic, r_data = d, r_subscriptions = map Item S\<rparr>
      \<and> r_invoked r = map (\<lambda>s. (s, subscriptionInvoker s d topic))
            (filter (\<lambda>s. \<not> s_suspended s) (rev (drop (nat (r_i r + 1)) S))))"

text \<open>\<open>map(getSubscriptions, lineage)\<close>: the subscription lss along the lineage of a
  topic, the root first.\<close>

definition lineage_subscriptions :: "broker \<Rightarrow> string \<Rightarrow> subscription list list" where
  "lineage_subscriptions state topic =
     map (\<lambda>ref. getSubscriptions (nodeAt (b_topics state) ref))
       (findLineage getTopic isAncestorTopic topic (Some (b_topics state)))"

text \<open>The finite value of a priority.\<close>

definition priority_of :: "subscription \<Rightarrow> rat" where
  "priority_of s = (case s_priority s of Fin r \<Rightarrow> r | _ \<Rightarrow> 0)"

text \<open>
  The order of a subscription list of a node: priorities are finite and ascending, and
  among equal priorities the identifiers are descending (\<open>insert\<close> puts a new
  subscription in front of the elements of its priority).
\<close>

definition registry_order :: "subscription list \<Rightarrow> bool" where
  "registry_order l =
     (list_all (\<lambda>s. s_priority s = Fin (priority_of s)) l
      \<and> sorted_wrt (\<lambda>a b. priority_of a < priority_of b
            \<or> (priority_of a = priority_of b \<and> s_id b < s_id a)) l)"

definition sub_a :: subscription where
  "sub_a = \<lparr>s_id = - 9007199254740992, s_fn = echo, s_suspended = False,
     s_priority = Fin 0, s_context = JNull\<rparr>"

definition sub_ab :: subscription where
  "sub_ab = \<lparr>s_id = - 9007199254740991, s_fn = echo, s_suspended = False,
     s_priority = Fin 0, s_context = JNull\<rparr>"

definition sub_root :: subscription where
  "sub_root = \<lparr>s_id = - 9007199254740990, s_fn = echo, s_suspended = False,
     s_priority = Fin 5, s_context = JNull\<rparr>"

definition lineage_tree :: node where
  "lineage_tree =
     Node [] [sub_root] [Node ''a'' [sub_a] [Node ''a.b'' [sub_ab] [] []] []] []"

definition lineage_state :: broker where
  "lineage_state = create\<lparr>b_topics := lineage_tree, b_id := - 9007199254740989\<rparr>"

text \<open>The subscriptions that a dispatch has launched, in the order of their launch.\<close>

definition launched :: "(error + resolver) \<times> broker \<Rightarrow> subscription list" where
  "launched result = (case fst result of Inl e \<Rightarrow> [] | Inr r \<Rightarrow> map fst (r_invoked r))"

text \<open>
  The persisted messages of a broker: the list of every node is in ascending order,
  below the counter of the broker. A fresh broker is in this state, and \<open>publish\<close>
  and \<open>subscribe\<close> keep it.
\<close>

fun persisted_below :: "int \<Rightarrow> node \<Rightarrow> bool" where
  "persisted_below n (Node topic subscriptions children persisted) =
     (sorted (map m_order persisted) \<and> list_all (\<lambda>m. m_order m < n) persisted
      \<and> list_all (persisted_below n) children)"

text \<open>The trees on the way to \<open>replay_tree\<close>: after the first and after the second
  persisted publish.\<close>

definition replay_tree1 :: node where
  "replay_tree1 = Node [] []
       [Node ''x'' []
          [Node ''x.y'' [] []
             [\<lparr>m_topic = ''x.y'', m_data = JNum (Fin 1), m_order = - 9007199254740992\<rparr>]]
          []]
       []"

definition replay_tree2 :: node where
  "replay_tree2 = Node [] []
       [Node ''x'' []
          [Node ''x.y'' [] []
             [\<lparr>m_topic = ''x.y'', m_data = JNum (Fin 1), m_order = - 9007199254740992\<rparr>]]
          [\<lparr>m_topic = ''x'', m_data = JNum (Fin 2), m_order = - 9007199254740991\<rparr>]]
       []"

text \<open>The options \<open>{priority: 5}\<close>, and the trees on the way to \<open>lineage_tree\<close>: after
  the first and after the second subscription.\<close>

definition priority_five :: options where
  "priority_five = map_of [(''priority'', ONum (Fin 5))]"

definition lineage_tree1 :: node where
  "lineage_tree1 = Node [] [] [Node ''a'' [sub_a] [] []] []"

definition lineage_tree2 :: node where
  "lineage_tree2 = Node [] [] [Node ''a'' [sub_a] [Node ''a.b'' [sub_ab] [] []] []] []"

text \<open>
  A broker with persisted messages on the topics \<open>a.b\<close> and \<open>a-b\<close>: the tree after the
  first publish, and the broker after the second. The children of the root are in the
  order of their topics, and \<open>'a' < 'a-b' < 'a.b'\<close>.
\<close>

definition sibling_tree1 :: node where
  "sibling_tree1 =
     Node [] []
       [Node ''a'' []
          [Node ''a.b'' [] []
             [\<lparr>m_topic = ''a.b'', m_data = JNum (Fin 1), m_order = - 9007199254740992\<rparr>]]
          []]
       []"

definition sibling_tree :: node where
  "sibling_tree =
     Node [] []
       [Node ''a'' []
          [Node ''a.b'' [] []
             [\<lparr>m_topic = ''a.b'', m_data = JNum (Fin 1), m_order = - 9007199254740992\<rparr>]]
          [],
        Node ''a-b'' [] []
          [\<lparr>m_topic = ''a-b'', m_data = JNum (Fin 2), m_order = - 9007199254740991\<rparr>]]
       []"

definition sibling_state :: broker where
  "sibling_state = create\<lparr>b_topics := sibling_tree, b_id := - 9007199254740990\<rparr>"

text \<open>A node-style subscriber: three parameters, calls \<open>done(null, data)\<close>.\<close>

definition three_parameters :: jsfun where
  "three_parameters = \<lparr>fn_length = 3, fn_suspended = False,
     fn_body = (\<lambda>d t. \<lparr>calls_done = Some (JNull, d), finish = Returns JUndefined\<rparr>)\<rparr>"

section \<open>Properties of the merge\<close>


lemma js_lt_trans: "js_lt a b \<Longrightarrow> js_lt b c \<Longrightarrow> js_lt a c"
  by (cases a; cases b; cases c) auto

lemma js_not_lt_trans:
  "b \<noteq> NaN \<Longrightarrow> \<not> js_lt a b \<Longrightarrow> \<not> js_lt b c \<Longrightarrow> \<not> js_lt a c"
  by (cases a; cases b; cases c) auto

lemma js_lt_not_lt_trans:
  "c \<noteq> NaN \<Longrightarrow> js_lt a b \<Longrightarrow> \<not> js_lt c b \<Longrightarrow> js_lt a c"
  by (cases a; cases b; cases c) auto

lemma js_lt_irrefl: "\<not> js_lt a a"
  by (cases a) auto

lemma minBy_loop_min:
  assumes "\<forall>j < length list. vc (list ! j) \<noteq> NaN"
    and "winner \<le> idx" and "idx < length list"
    and "cw = vc (list ! winner)"
    and "\<forall>j \<le> idx. \<not> js_lt (vc (list ! j)) cw"
    and "\<forall>j < winner. js_lt cw (vc (list ! j))"
  shows "minBy_loop vc list idx winner cw < length list
    \<and> (\<forall>j < length list. \<not> js_lt (vc (list ! j)) (vc (list ! minBy_loop vc list idx winner cw)))
    \<and> (\<forall>j < minBy_loop vc list idx winner cw. js_lt (vc (list ! minBy_loop vc list idx winner cw)) (vc (list ! j)))"
  using assms
proof (induction vc list idx winner cw rule: minBy_loop.induct)
  case (1 vc list idx winner cw)
  show ?case
  proof (cases "idx + 1 < length list")
    case False
    then have e: "minBy_loop vc list idx winner cw = winner"
      by (simp add: minBy_loop.simps)
    from False "1.prems" have "\<forall>j < length list. j \<le> idx" by auto
    with "1.prems" e show ?thesis by auto
  next
    case True
    let ?c = "vc (list ! (idx + 1))"
    show ?thesis
    proof (cases "?c < cw")
      case lt: True
      then have e: "minBy_loop vc list idx winner cw = minBy_loop vc list (idx + 1) (idx + 1) ?c"
        using True by (simp add: minBy_loop.simps [of vc list idx])
      have lt': "js_lt ?c cw" using lt by (simp add: less_jsnum_def)
      have cn: "cw \<noteq> NaN" using "1.prems" by auto
      have a: "\<forall>j \<le> idx + 1. \<not> js_lt (vc (list ! j)) ?c"
      proof (intro allI impI)
        fix j assume j: "j \<le> idx + 1"
        show "\<not> js_lt (vc (list ! j)) ?c"
        proof (cases "j = idx + 1")
          case True then show ?thesis by (simp add: js_lt_irrefl)
        next
          case False
          with j have "j \<le> idx" by simp
          with "1.prems" have "\<not> js_lt (vc (list ! j)) cw" by auto
          moreover have "\<not> js_lt cw ?c" using lt' by (cases cw; cases ?c) auto
          ultimately show ?thesis using js_not_lt_trans [OF cn] by blast
        qed
      qed
      have b: "\<forall>j < idx + 1. js_lt ?c (vc (list ! j))"
      proof (intro allI impI)
        fix j assume j: "j < idx + 1"
        then have "j \<le> idx" by simp
        with "1.prems" have n: "\<not> js_lt (vc (list ! j)) cw" by auto
        have "j < length list" using j True by simp
        with "1.prems" have "vc (list ! j) \<noteq> NaN" by auto
        then show "js_lt ?c (vc (list ! j))" using js_lt_not_lt_trans lt' n by blast
      qed
      show ?thesis
        unfolding e
        using "1.IH"(1) [OF True refl lt "1.prems"(1) _ True refl a b] by simp
    next
      case nlt: False
      then have e: "minBy_loop vc list idx winner cw = minBy_loop vc list (idx + 1) winner cw"
        using True by (simp add: minBy_loop.simps [of vc list idx])
      have a: "\<forall>j \<le> idx + 1. \<not> js_lt (vc (list ! j)) cw"
      proof (intro allI impI)
        fix j assume j: "j \<le> idx + 1"
        show "\<not> js_lt (vc (list ! j)) cw"
        proof (cases "j = idx + 1")
          case True then show ?thesis using nlt by (simp add: less_jsnum_def)
        next
          case False
          with j have "j \<le> idx" by simp
          with "1.prems" show ?thesis by auto
        qed
      qed
      have w: "winner \<le> idx + 1" using "1.prems" by simp
      show ?thesis
        unfolding e
        using "1.IH"(2) [OF True refl nlt "1.prems"(1) w True "1.prems"(4) a "1.prems"(6)] by simp
    qed
  qed
qed

lemma minBy_min:
  assumes "list \<noteq> []" and "\<forall>j < length list. vc (list ! j) \<noteq> NaN"
  shows "\<exists>m. minBy vc list = Inr m \<and> m < length list
    \<and> (\<forall>j < length list. \<not> js_lt (vc (list ! j)) (vc (list ! m)))
    \<and> (\<forall>j < m. js_lt (vc (list ! m)) (vc (list ! j)))"
proof -
  have l: "0 < length list" using assms by simp
  have "\<forall>j \<le> 0. \<not> js_lt (vc (list ! j)) (vc (list ! 0))" by (simp add: js_lt_irrefl)
  from minBy_loop_min [OF assms(2) le_refl l refl this]
  show ?thesis using assms by (simp add: minBy_def)
qed

lemma insort_key_least:
  "\<forall>z \<in> set zs. f x \<le> f z \<Longrightarrow> insort_key f x zs = x # zs"
  by (cases zs) auto

lemma sort_key_extract:
  fixes f :: "'a \<Rightarrow> 'k::linorder"
  assumes "\<forall>y \<in> set pre. f x < f y" and "\<forall>y \<in> set post. f x \<le> f y"
  shows "sort_key f (pre @ x # post) = x # sort_key f (pre @ post)"
  using assms
proof (induction pre)
  case Nil
  then show ?case by (simp add: insort_key_least)
next
  case (Cons y pre)
  then have "sort_key f (pre @ x # post) = x # sort_key f (pre @ post)" by simp
  moreover have "\<not> f y \<le> f x" using Cons.prems by auto
  ultimately show ?case by simp
qed


lemma getPointedFinger_remaining:
  "getPointedFinger fa = (case remaining fa of [] \<Rightarrow> SYMBOL_NOTHING | x # xs \<Rightarrow> Item x)"
  by (auto simp: getPointedFinger_def remaining_def split: list.splits
      dest: hd_drop_conv_nth [symmetric] simp: hd_drop_conv_nth)

lemma remaining_advance:
  "remaining (fa\<lparr>pointer := pointer fa + 1\<rparr>) = tl (remaining fa)"
  by (simp add: remaining_def drop_Suc tl_drop)

lemma concat_remaining_split:
  assumes "m < length fas"
  shows "concat (map remaining fas) =
    concat (map remaining (take m fas)) @ remaining (fas ! m) @ concat (map remaining (drop (Suc m) fas))"
proof -
  have "fas = take m fas @ fas ! m # drop (Suc m) fas"
    using assms by (rule id_take_nth_drop)
  then have "concat (map remaining fas) = concat (map remaining (take m fas @ fas ! m # drop (Suc m) fas))"
    by simp
  then show ?thesis by simp
qed

lemma concat_remaining_update:
  assumes "m < length fas"
  shows "concat (map remaining (fas[m := fa])) =
    concat (map remaining (take m fas)) @ remaining fa @ concat (map remaining (drop (Suc m) fas))"
  using assms by (simp add: upd_conv_take_nth_drop)

lemma mergeBy_loop_sort_key:
  fixes k :: "'a \<Rightarrow> rat"
  assumes key: "\<forall>fa. getItemOrder fa =
      (case getPointedFinger fa of SYMBOL_NOTHING \<Rightarrow> PInf | Item x \<Rightarrow> key x)"
    and fin: "\<forall>fa \<in> set fas. \<forall>x \<in> set (remaining fa). key x = Fin (k x)"
    and srt: "\<forall>fa \<in> set fas. sorted (map k (remaining fa))"
    and cnt: "i + length (concat (map remaining fas)) = n"
  shows "mergeBy_loop getItemOrder n i fas result =
    Inr (result @ map Item (sort_key k (concat (map remaining fas))))"
  using key fin srt cnt
proof (induction getItemOrder n i fas result rule: mergeBy_loop.induct)
  case (1 getItemOrder n i fas result)
  note kp = "1.prems"(1) and fp = "1.prems"(2) and sp = "1.prems"(3) and cp = "1.prems"(4)
  have key': "getItemOrder fa = (case remaining fa of [] \<Rightarrow> PInf | x # xs \<Rightarrow> Fin (k x))"
    if "fa \<in> set fas" for fa
    using kp fp that by (auto simp: getPointedFinger_remaining split: list.splits)
  show ?case
  proof (cases "i < n")
    case False
    with cp have "length (concat (map remaining fas)) = 0" by arith
    then have e: "concat (map remaining fas) = []" by (simp only: length_0_conv)
    show ?thesis unfolding e using False by (simp add: mergeBy_loop.simps [of _ n i])
  next
    case True
    with cp have "length (concat (map remaining fas)) \<noteq> 0" by arith
    then have ne: "concat (map remaining fas) \<noteq> []" by (simp only: length_0_conv) simp
    then obtain fj where fj: "fj \<in> set fas" "remaining fj \<noteq> []" by auto
    then obtain j where j: "j < length fas" "fas ! j = fj" by (auto simp: in_set_conv_nth)
    have fne: "fas \<noteq> []" using fj by auto
    have nn: "\<forall>j < length fas. getItemOrder (fas ! j) \<noteq> NaN"
      by (simp add: key' split: list.splits)
    from minBy_min [OF fne nn] obtain m where m: "minBy getItemOrder fas = Inr m"
      "m < length fas"
      "\<forall>j < length fas. \<not> js_lt (getItemOrder (fas ! j)) (getItemOrder (fas ! m))"
      "\<forall>j < m. js_lt (getItemOrder (fas ! m)) (getItemOrder (fas ! j))"
      by blast
    have mm: "fas ! m \<in> set fas" using m(2) by simp
    have "\<not> js_lt (getItemOrder fj) (getItemOrder (fas ! m))" using m(3) j by blast
    then have "remaining (fas ! m) \<noteq> []"
      using fj by (auto simp: key' mm split: list.splits)
    then obtain x xs where x: "remaining (fas ! m) = x # xs" by (cases "remaining (fas ! m)") auto
    let ?adv = "(fas ! m)\<lparr>pointer := pointer (fas ! m) + 1\<rparr>"
    let ?fas' = "fas[m := ?adv]"
    let ?pre = "concat (map remaining (take m fas))"
    let ?post = "concat (map remaining (drop (Suc m) fas))"
    have adv: "remaining ?adv = xs" using x remaining_advance [of "fas ! m"] by simp
    have item: "getPointedFinger (fas ! m) = Item x" by (simp add: getPointedFinger_remaining x)
    have all: "concat (map remaining fas) = ?pre @ x # (xs @ ?post)"
      using concat_remaining_split [OF m(2)] x by simp
    have all': "concat (map remaining ?fas') = ?pre @ (xs @ ?post)"
      using concat_remaining_update [OF m(2), of ?adv] adv by simp
    have sm: "sorted (map k (x # xs))" using sp mm x by metis
    have pre: "\<forall>y \<in> set ?pre. k x < k y"
    proof
      fix y assume "y \<in> set ?pre"
      then obtain fa where fa: "fa \<in> set (take m fas)" "y \<in> set (remaining fa)" by auto
      then obtain j' where j': "j' < m" "fas ! j' = fa"
        using m(2) by (auto simp: in_set_conv_nth)
      obtain y0 ys where y0: "remaining fa = y0 # ys" using fa(2) by (cases "remaining fa") auto
      have fa': "fa \<in> set fas" using fa(1) by (rule in_set_takeD)
      then have "sorted (map k (y0 # ys))" using sp y0 by metis
      then have le: "k y0 \<le> k y" using fa(2) y0 by auto
      have "js_lt (getItemOrder (fas ! m)) (getItemOrder fa)" using m(4) j' by blast
      then have "k x < k y0" by (simp add: key' mm fa' x y0)
      with le show "k x < k y" by simp
    qed
    have post: "\<forall>y \<in> set (xs @ ?post). k x \<le> k y"
    proof
      fix y assume "y \<in> set (xs @ ?post)"
      then consider "y \<in> set xs" | "y \<in> set ?post" by auto
      then show "k x \<le> k y"
      proof cases
        case 1 then show ?thesis using sm by auto
      next
        case 2
        then obtain fa where fa: "fa \<in> set (drop (Suc m) fas)" "y \<in> set (remaining fa)" by auto
        have fa': "fa \<in> set fas" using fa(1) by (rule in_set_dropD)
        then obtain j' where j': "j' < length fas" "fas ! j' = fa" by (auto simp: in_set_conv_nth)
        obtain y0 ys where y0: "remaining fa = y0 # ys" using fa(2) by (cases "remaining fa") auto
        have "sorted (map k (y0 # ys))" using sp y0 fa' by metis
        then have le: "k y0 \<le> k y" using fa(2) y0 by auto
        have "\<not> js_lt (getItemOrder fa) (getItemOrder (fas ! m))" using m(3) j' by blast
        then have "k x \<le> k y0" by (simp add: key' mm fa' x y0)
        with le show ?thesis by simp
      qed
    qed
    have mem': "fa \<in> insert ?adv (set fas)" if "fa \<in> set ?fas'" for fa
      using that set_update_subset_insert by fastforce
    have srt': "\<forall>fa \<in> set ?fas'. sorted (map k (remaining fa))"
    proof
      fix fa assume "fa \<in> set ?fas'"
      then have "fa \<in> insert ?adv (set fas)" by (rule mem')
      then show "sorted (map k (remaining fa))" using sp adv sm by auto
    qed
    have fin': "\<forall>fa \<in> set ?fas'. \<forall>y \<in> set (remaining fa). key y = Fin (k y)"
    proof
      fix fa assume "fa \<in> set ?fas'"
      then have "fa \<in> insert ?adv (set fas)" by (rule mem')
      moreover have "\<forall>y \<in> set xs. key y = Fin (k y)" using fp mm x by (metis list.set_intros(2))
      ultimately show "\<forall>y \<in> set (remaining fa). key y = Fin (k y)" using fp adv by auto
    qed
    have cnt': "i + 1 + length (concat (map remaining ?fas')) = n"
      using cp unfolding all all' by simp
    have "mergeBy_loop getItemOrder n i fas result =
        mergeBy_loop getItemOrder n (i + 1) ?fas' (result @ [Item x])"
      using True m(1) item by (simp add: mergeBy_loop.simps [of _ n i])
    also have "\<dots> = Inr ((result @ [Item x]) @ map Item (sort_key k (concat (map remaining ?fas'))))"
      using "1.IH" [OF True m(1) kp fin' srt' cnt'] item by simp
    also have "\<dots> = Inr (result @ map Item (sort_key k (concat (map remaining fas))))"
      unfolding all all' using sort_key_extract [OF pre post] by simp
    finally show ?thesis .
  qed
qed

text \<open>
  On arrays that are sorted by a key with finite values, \<open>mergeBy\<close> is the stable sort
  of their concatenation.
\<close>

lemma mergeBy_sort_key:
  fixes k :: "'a \<Rightarrow> rat"
  assumes key: "\<forall>fa. getItemOrder fa =
      (case getPointedFinger fa of SYMBOL_NOTHING \<Rightarrow> PInf | Item x \<Rightarrow> key x)"
    and fin: "\<forall>a \<in> set arrays. \<forall>x \<in> set a. key x = Fin (k x)"
    and srt: "\<forall>a \<in> set arrays. sorted (map k a)"
  shows "mergeBy getItemOrder arrays = Inr (map Item (sort_key k (concat arrays)))"
proof -
  have r: "map remaining (map mkFingerArray arrays) = arrays"
    by (induction arrays) (auto simp: remaining_def mkFingerArray_def)
  have f: "\<forall>fa \<in> set (map mkFingerArray arrays). \<forall>x \<in> set (remaining fa). key x = Fin (k x)"
    using fin by (auto simp: remaining_def mkFingerArray_def)
  have s: "\<forall>fa \<in> set (map mkFingerArray arrays). sorted (map k (remaining fa))"
    using srt by (auto simp: remaining_def mkFingerArray_def)
  have c: "0 + length (concat (map remaining (map mkFingerArray arrays))) = sum_list (map length arrays)"
    unfolding r by (simp add: length_concat)
  show ?thesis
    unfolding mergeBy_def
    using mergeBy_loop_sort_key [OF key f s c, of "[]"] unfolding r by simp
qed

text \<open>The finite part of a key, and the order of finite keys.\<close>

lemma Fin_le_iff: "(Fin a \<le> Fin b) = (a \<le> b)"
  by (auto simp: less_eq_jsnum_def)

lemma Fin_less_iff: "(Fin a < Fin b) = (a < b)"
  by (simp add: less_jsnum_def)

lemma sorted_wrt_finite_keys:
  assumes "\<forall>x \<in> set xs. key x = Fin (k x)"
  shows "sorted_wrt (\<lambda>x y. key x \<le> key y) xs = sorted (map k xs)"
  using assms by (induction xs) (auto simp: Fin_le_iff)

text \<open>
  C10. For arrays that are each sorted ascending by the key projection, every projected
  key being finite, \<open>mergeBy\<close> returns a sequence of items (the sentinel of an exhausted
  array is not among them) that contains every input element exactly once and is sorted
  ascending by key. The value computer handed to \<open>mergeBy\<close> is the key of the pointed
  element, and \<open>+Infinity\<close> on an exhausted array, as \<open>getFingerArrayPriority\<close> and
  \<open>getFingerArrayOrder\<close> are.
\<close>

theorem mergeBy_sorted_permutation:
  assumes "\<forall>fa. getItemOrder fa =
      (case getPointedFinger fa of SYMBOL_NOTHING \<Rightarrow> PInf | Item x \<Rightarrow> key x)"
    and "\<forall>a \<in> set arrays. sorted_wrt (\<lambda>x y. key x \<le> key y) a"
    and "\<forall>a \<in> set arrays. \<forall>x \<in> set a. \<exists>r. key x = Fin r"
  shows "\<exists>xs. mergeBy getItemOrder arrays = Inr (map Item xs)
    \<and> mset xs = mset (concat arrays)
    \<and> sorted_wrt (\<lambda>x y. key x \<le> key y) xs"
proof -
  define k where "k = (\<lambda>x. case key x of Fin r \<Rightarrow> r | _ \<Rightarrow> 0)"
  have fin: "\<forall>a \<in> set arrays. \<forall>x \<in> set a. key x = Fin (k x)"
    using assms(3) by (fastforce simp: k_def)
  have srt: "\<forall>a \<in> set arrays. sorted (map k a)"
    using assms(2) fin sorted_wrt_finite_keys [of _ key k] by blast
  let ?xs = "sort_key k (concat arrays)"
  have m: "mergeBy getItemOrder arrays = Inr (map Item ?xs)"
    by (rule mergeBy_sort_key [OF assms(1) fin srt])
  have "\<forall>x \<in> set ?xs. key x = Fin (k x)" using fin by auto
  then have "sorted_wrt (\<lambda>x y. key x \<le> key y) ?xs"
    using sorted_wrt_finite_keys [of ?xs key k] by simp
  with m show ?thesis by (intro exI [of _ ?xs]) simp
qed

theorem mergeBy_sorted_permutation_witness:
  "\<exists>xs. mergeBy getFingerArrayOrder merge_example = Inr (map Item xs)
    \<and> mset xs = mset (concat merge_example)
    \<and> sorted_wrt (\<lambda>x y. getOrder x \<le> getOrder y) xs"
proof -
  have a: "\<forall>fa. getFingerArrayOrder fa =
      (case getPointedFinger fa of SYMBOL_NOTHING \<Rightarrow> PInf | Item x \<Rightarrow> getOrder x)"
    by (simp add: getFingerArrayOrder_def)
  have b: "\<forall>a \<in> set merge_example. sorted_wrt (\<lambda>x y. getOrder x \<le> getOrder y) a"
    by (simp add: merge_example_def getOrder_def num_def Fin_le_iff)
  have c: "\<forall>a \<in> set merge_example. \<forall>x \<in> set a. \<exists>r. getOrder x = Fin r"
    by (simp add: getOrder_def num_def)
  show ?thesis by (rule mergeBy_sorted_permutation [OF a b c])
qed

section \<open>The arithmetic of doubles\<close>

lemma pow2_pos: "0 < pow2 e"
  by (simp add: pow2_def)

lemma pow2_Suc: "pow2 (e + 1) = 2 * pow2 e"
proof (cases "0 \<le> e")
  case True
  then show ?thesis by (simp add: pow2_def nat_add_distrib)
next
  case False
  then have "nat (- e) = Suc (nat (- (e + 1)))" by simp
  then show ?thesis using False by (simp add: pow2_def)
qed

lemma pow2_pred: "pow2 (e - 1) = pow2 e / 2"
  using pow2_Suc [of "e - 1"] by simp

lemma pow2_add_nat: "pow2 (e + int k) = 2 ^ k * pow2 e"
proof (induction k)
  case 0
  then show ?case by simp
next
  case (Suc k)
  have "e + int (Suc k) = e + int k + 1" by simp
  then have "pow2 (e + int (Suc k)) = 2 * pow2 (e + int k)" by (simp only: pow2_Suc)
  then show ?case using Suc by simp
qed

lemma pow2_significand: "pow2 (e + 1) = 2 ^ 53 * pow2 (e - 52)"
proof -
  have "pow2 (e - 52 + int 53) = 2 ^ 53 * pow2 (e - 52)" by (rule pow2_add_nat)
  moreover have "e - 52 + int 53 = e + 1" by simp
  ultimately show ?thesis by (simp only:)
qed

lemma pow2_mono_nat: "pow2 e \<le> pow2 (e + int k)"
proof -
  have "(1 :: rat) \<le> 2 ^ k" by simp
  then have "1 * pow2 e \<le> 2 ^ k * pow2 e"
    using pow2_pos [of e] by (simp only: mult_right_mono less_imp_le)
  then show ?thesis by (simp add: pow2_add_nat)
qed

lemma pow2_mono: "e \<le> e' \<Longrightarrow> pow2 e \<le> pow2 e'"
  using pow2_mono_nat [of e "nat (e' - e)"] by simp

lemma pow2_less_imp: "pow2 e < pow2 e' \<Longrightarrow> e < e'"
  using pow2_mono [of e' e] by (cases "e < e'") simp_all

lemma binade_up_bounds:
  "1 \<le> a \<Longrightarrow> 0 \<le> binade_up a \<and> pow2 (binade_up a) \<le> a \<and> a < pow2 (binade_up a + 1)"
proof (induction a rule: binade_up.induct)
  case (1 a)
  show ?case
  proof (cases "a < 2")
    case True
    then have "binade_up a = 0" by (subst binade_up.simps) simp
    then show ?thesis using True "1.prems" by (simp add: pow2_def)
  next
    case False
    then have e: "binade_up a = binade_up (a / 2) + 1" by (subst binade_up.simps) simp
    have "1 \<le> a / 2" using False by simp
    from "1.IH" [OF False this]
    have i: "0 \<le> binade_up (a / 2)" "pow2 (binade_up (a / 2)) \<le> a / 2"
      "a / 2 < pow2 (binade_up (a / 2) + 1)" by simp_all
    have "pow2 (binade_up (a / 2) + 1) \<le> a" using i(2) by (simp add: pow2_Suc)
    moreover have "a < pow2 (binade_up (a / 2) + 1 + 1)"
      using i(3) by (subst pow2_Suc) simp
    ultimately show ?thesis unfolding e using i(1) by simp
  qed
qed

lemma binade_down_bounds:
  "0 < a \<Longrightarrow> a < 1 \<Longrightarrow> pow2 (binade_down a) \<le> a \<and> a < pow2 (binade_down a + 1)"
proof (induction a rule: binade_down.induct)
  case (1 a)
  have e: "binade_down a = binade_down (a * 2) - 1"
    using "1.prems" by (subst binade_down.simps) simp
  have n: "\<not> (a \<le> 0 \<or> 1 \<le> a)" using "1.prems" by simp
  show ?case
  proof (cases "a * 2 < 1")
    case True
    have "0 < a * 2" using "1.prems" by simp
    from "1.IH" [OF n this True]
    have i: "pow2 (binade_down (a * 2)) \<le> a * 2" "a * 2 < pow2 (binade_down (a * 2) + 1)"
      by simp_all
    have "pow2 (binade_down (a * 2) - 1) \<le> a" using i(1) by (simp add: pow2_pred)
    moreover have "a < pow2 (binade_down (a * 2) - 1 + 1)"
      using i(2) by (simp add: pow2_Suc)
    ultimately show ?thesis unfolding e by simp
  next
    case False
    then have "binade_down (a * 2) = 0" by (subst binade_down.simps) simp
    then show ?thesis unfolding e using False "1.prems" by (simp add: pow2_def)
  qed
qed

text \<open>\<open>binade a\<close> is the exponent of the power of two at or below \<open>a\<close>.\<close>

lemma binade_bounds: "0 < a \<Longrightarrow> pow2 (binade a) \<le> a \<and> a < pow2 (binade a + 1)"
  using binade_up_bounds [of a] binade_down_bounds [of a] by (simp add: binade_def)

lemma binade_unique:
  assumes "0 < a" and "pow2 e \<le> a" and "a < pow2 (e + 1)"
  shows "binade a = e"
proof -
  from binade_bounds [OF assms(1)] have b: "pow2 (binade a) \<le> a" "a < pow2 (binade a + 1)"
    by simp_all
  have "pow2 e < pow2 (binade a + 1)" using assms(2) b(2) by simp
  then have "e < binade a + 1" by (rule pow2_less_imp)
  moreover have "pow2 (binade a) < pow2 (e + 1)" using assms(3) b(1) by simp
  then have "binade a < e + 1" by (rule pow2_less_imp)
  ultimately show ?thesis by simp
qed

text \<open>\<open>round_half_even\<close> gives the nearest integer, and the even one of two nearest.\<close>

lemma round_half_even_nearest: "\<bar>of_int (round_half_even m) - m\<bar> \<le> 1 / 2"
proof -
  have "of_int \<lfloor>m\<rfloor> \<le> m" "m < of_int \<lfloor>m\<rfloor> + 1" by linarith+
  then show ?thesis unfolding round_half_even_def Let_def
    by (auto simp: abs_if; linarith)
qed

lemma round_half_even_tie:
  assumes "\<bar>of_int (round_half_even m) - m\<bar> = 1 / 2"
  shows "even (round_half_even m)"
proof -
  have f: "of_int \<lfloor>m\<rfloor> \<le> m" "m < of_int \<lfloor>m\<rfloor> + 1" by linarith+
  show ?thesis
  proof (cases "m - of_int \<lfloor>m\<rfloor> = 1 / 2")
    case True
    then show ?thesis by (simp add: round_half_even_def Let_def)
  next
    case False
    then have "\<bar>of_int (round_half_even m) - m\<bar> \<noteq> 1 / 2"
      using f unfolding round_half_even_def Let_def by (auto simp: abs_if; linarith)
    then show ?thesis using assms by simp
  qed
qed

text \<open>
  \<open>to_double q\<close> is a multiple of the unit in the last place of the binade of \<open>q\<close>, with
  a significand of at most 53 bits, at most half a unit away from \<open>q\<close>, and with an even
  significand when it is half a unit away.
\<close>

lemma to_double_nearest:
  assumes "q \<noteq> 0" and "to_double q = Fin r"
  shows "\<exists>n. r = of_int n * pow2 (max (binade \<bar>q\<bar>) (- 1022) - 52)
    \<and> \<bar>n\<bar> \<le> 2 ^ 53
    \<and> \<bar>r - q\<bar> \<le> pow2 (max (binade \<bar>q\<bar>) (- 1022) - 52) / 2
    \<and> (\<bar>r - q\<bar> = pow2 (max (binade \<bar>q\<bar>) (- 1022) - 52) / 2 \<longrightarrow> even n)"
proof -
  define a where "a = \<bar>q\<bar>"
  define e where "e = max (binade a) (- 1022)"
  define ulp where "ulp = pow2 (e - 52)"
  define n where "n = round_half_even (a / ulp)"
  have a: "0 < a" using assms(1) by (simp add: a_def)
  have u: "0 < ulp" by (simp add: ulp_def pow2_pos)
  have r: "r = (if q < 0 then - (of_int n * ulp) else of_int n * ulp)"
    using assms unfolding to_double_def Let_def a_def [symmetric] e_def [symmetric]
      ulp_def [symmetric] n_def [symmetric]
    by (simp split: if_splits)
  have d: "\<bar>of_int n - a / ulp\<bar> \<le> 1 / 2" unfolding n_def by (rule round_half_even_nearest)
  have "of_int n * ulp - a = (of_int n - a / ulp) * ulp"
    using u by (simp add: left_diff_distrib)
  then have e1: "\<bar>of_int n * ulp - a\<bar> = \<bar>of_int n - a / ulp\<bar> * ulp"
    using u by (simp only: abs_mult abs_of_pos)
  also have "\<dots> \<le> (1 / 2) * ulp" using d u by (simp add: mult_right_mono)
  finally have err: "\<bar>of_int n * ulp - a\<bar> \<le> ulp / 2" by simp
  have tie: "even n" if "\<bar>of_int n * ulp - a\<bar> = ulp / 2"
  proof -
    have "\<bar>of_int n - a / ulp\<bar> * ulp = (1 / 2) * ulp" using that e1 by simp
    then have "\<bar>of_int n - a / ulp\<bar> = 1 / 2" using u by simp
    then show ?thesis unfolding n_def by (rule round_half_even_tie)
  qed
  have up: "a < pow2 (e + 1)"
  proof -
    have "a < pow2 (binade a + 1)" using binade_bounds [OF a] by simp
    also have "\<dots> \<le> pow2 (e + 1)" by (rule pow2_mono) (simp add: e_def)
    finally show ?thesis .
  qed
  have "pow2 (e + 1) = 2 ^ 53 * ulp" unfolding ulp_def by (rule pow2_significand)
  then have "a / ulp < 2 ^ 53" using up u by (simp add: pos_divide_less_eq)
  then have "of_int n \<le> (2 :: rat) ^ 53 + 1 / 2" using d by linarith
  moreover have "0 \<le> a / ulp" using a u by simp
  then have "- (1 / 2) \<le> (of_int n :: rat)" using d by linarith
  ultimately have nb: "0 \<le> n" "n \<le> 2 ^ 53"
  proof -
    assume 1: "of_int n \<le> (2 :: rat) ^ 53 + 1 / 2" and 2: "- (1 / 2) \<le> (of_int n :: rat)"
    from 2 have "(- 1 :: rat) < of_int n" by linarith
    then have "- 1 < n" by linarith
    then show "0 \<le> n" by simp
    from 1 have "(of_int n :: rat) < 2 ^ 53 + 1" by linarith
    then have "(of_int n :: rat) < of_int (2 ^ 53 + 1)" by simp
    then have "n < 2 ^ 53 + 1" by (simp only: of_int_less_iff)
    then show "n \<le> 2 ^ 53" by simp
  qed
  have ulp_eq: "pow2 (max (binade \<bar>q\<bar>) (- 1022) - 52) = ulp"
    by (simp add: ulp_def e_def a_def)
  have an: "\<bar>n\<bar> \<le> 2 ^ 53" "\<bar>- n\<bar> \<le> 2 ^ 53" using nb by simp_all
  show ?thesis
    unfolding ulp_eq
  proof (cases "q < 0")
    case True
    then have 1: "r = of_int (- n) * ulp" using r by simp
    have "r - q = - (of_int n * ulp - a)" using True r by (simp add: a_def)
    then have d: "\<bar>r - q\<bar> = \<bar>of_int n * ulp - a\<bar>" by (simp only: abs_minus_cancel)
    then have 2: "\<bar>r - q\<bar> \<le> ulp / 2" using err by (simp only:)
    have 3: "\<bar>r - q\<bar> = ulp / 2 \<longrightarrow> even (- n)" using tie d by simp
    show "\<exists>n. r = of_int n * ulp \<and> \<bar>n\<bar> \<le> 2 ^ 53 \<and> \<bar>r - q\<bar> \<le> ulp / 2
        \<and> (\<bar>r - q\<bar> = ulp / 2 \<longrightarrow> even n)"
      using 1 an(2) 2 3 by (intro exI [of _ "- n"] conjI)
  next
    case False
    then have 1: "r = of_int n * ulp" using r by simp
    have d: "r - q = of_int n * ulp - a" using False r by (simp add: a_def)
    then have 2: "\<bar>r - q\<bar> \<le> ulp / 2" using err by (simp only:)
    have 3: "\<bar>r - q\<bar> = ulp / 2 \<longrightarrow> even n" using tie d by simp
    show "\<exists>n. r = of_int n * ulp \<and> \<bar>n\<bar> \<le> 2 ^ 53 \<and> \<bar>r - q\<bar> \<le> ulp / 2
        \<and> (\<bar>r - q\<bar> = ulp / 2 \<longrightarrow> even n)"
      using 1 an(1) 2 3 by (intro exI [of _ n] conjI)
  qed
qed

lemma round_half_even_unique:
  assumes "\<bar>of_int n - m\<bar> < 1 / 2"
  shows "round_half_even m = n"
proof -
  have "\<bar>of_int (round_half_even m) - m\<bar> \<le> 1 / 2" by (rule round_half_even_nearest)
  then have "\<bar>(of_int (round_half_even m) :: rat) - of_int n\<bar> < 1" using assms by linarith
  then have "\<bar>(of_int (round_half_even m - n) :: rat)\<bar> < of_int 1" by simp
  then have "\<bar>round_half_even m - n\<bar> < 1" by (simp only: of_int_abs [symmetric] of_int_less_iff)
  then show ?thesis by simp
qed

text \<open>The double of a positive rational, from its binade and its nearest significand.\<close>

lemma to_double_eq:
  assumes "pow2 e \<le> q" and "q < pow2 (e + 1)" and "- 1022 \<le> e" and "e \<le> 1022"
    and "\<bar>of_int n - q / pow2 (e - 52)\<bar> < 1 / 2"
  shows "to_double q = Fin (of_int n * pow2 (e - 52))"
proof -
  have q: "0 < q" using assms(1) pow2_pos [of e] by simp
  have b: "binade \<bar>q\<bar> = e" using q assms(1,2) by (simp add: binade_unique)
  have m: "max e (- 1022) = e" using assms(3) by simp
  have r: "round_half_even (\<bar>q\<bar> / pow2 (e - 52)) = n"
    using assms(5) q by (simp add: round_half_even_unique)
  have u: "0 < pow2 (e - 52)" by (rule pow2_pos)
  note s = pow2_significand [of e]
  have "q / pow2 (e - 52) < 2 ^ 53" using assms(2) u unfolding s by (simp add: pos_divide_less_eq)
  then have "(of_int n :: rat) < 2 ^ 53 + 1" using assms(5) by linarith
  then have "(of_int n :: rat) < of_int (2 ^ 53 + 1)" by simp
  then have "n < 2 ^ 53 + 1" by (simp only: of_int_less_iff)
  then have "(of_int n :: rat) \<le> 2 ^ 53" by simp
  then have "of_int n * pow2 (e - 52) \<le> 2 ^ 53 * pow2 (e - 52)"
    using u by (simp only: mult_right_mono less_imp_le)
  also have "\<dots> = pow2 (e + 1)" by (simp only: s)
  also have "\<dots> \<le> pow2 1023" using assms(4) by (intro pow2_mono) simp
  also have "\<dots> < pow2 1024" using pow2_Suc [of 1023] pow2_pos [of 1023] by simp
  finally have o: "\<not> pow2 1024 \<le> of_int n * pow2 (e - 52)" by simp
  show ?thesis
    unfolding to_double_def Let_def b m r using q o by simp
qed

lemma to_double_one: "to_double 1 = Fin 1"
  using to_double_eq [of 0 1 4503599627370496] by (simp add: pow2_def)

lemma to_double_fifth: "to_double (1 / 5) = Fin (3602879701896397 / 18014398509481984)"
  using to_double_eq [of "- 3" "1 / 5" 7205759403792794] by (simp add: pow2_def)

lemma to_double_third: "to_double (1 / 3) = Fin (6004799503160661 / 18014398509481984)"
  using to_double_eq [of "- 2" "1 / 3" 6004799503160661] by (simp add: pow2_def)

section \<open>The latch\<close>

lemma num_eq_zero_iff: "(num t = Fin 0) = (t = 0)"
  by (simp add: num_def)

lemma js_div_num: "js_div (num a) (num b) = spec_quotient a b"
  by (simp add: num_def spec_quotient_def)

text \<open>
  C2. While the publication is unsettled, a latch evaluation settles it as rejected
  exactly when one of the four reject rules of the specification holds, and otherwise as
  fulfilled exactly when one of its four fulfill rules holds; otherwise it leaves it as
  it is. The rules are read on JavaScript numbers: a quotient is the double nearest to
  the fraction of the counters. The rejection value is the array of rejected values;
  the fulfillment value is the array of fulfilled values under a fulfillment latch, and
  a new array of the fulfilled values followed by the rejected values under a settlement
  latch.
\<close>

theorem evaluateLatch_latch_rules:
  assumes "\<not> r_settled resolver"
  shows "evaluateLatch resolver options =
    (let sl = to_boolean (opt options ''settlementLatch'');
         L = to_number (opt options ''latch'');
         F = p_fulfilled resolver; R = p_rejected resolver; P = p_pending resolver
     in
       if spec_rejects sl L F R P
       then resolver\<lparr>r_settled := True, p_state := RejectedWith RejectedValues\<rparr>
       else if spec_fulfills sl L F R P
       then resolver\<lparr>r_settled := True,
              p_state := FulfilledWith
                (if sl then NewArray (r_fulfilledValues resolver @ r_rejectedValues resolver)
                 else FulfilledValues)\<rparr>
       else resolver)"
proof -
  have z: "(num (p_fulfilled resolver + p_pending resolver + p_rejected resolver) = Fin 0)
      = (p_fulfilled resolver + p_pending resolver + p_rejected resolver = 0)"
    by (rule num_eq_zero_iff)
  show ?thesis
    unfolding evaluateLatch_def spec_rejects_def spec_fulfills_def Let_def z js_div_num
    using assms by (simp only: if_False)
qed

text \<open>
  With \<open>{latch: 0.2}\<close>, one invocation fulfilled and four pending, the publication is
  fulfilled: the quotient \<open>1 / 5\<close> is the double \<open>0.2\<close>, which is the latch.
\<close>

theorem evaluateLatch_latch_rules_witness:
  "evaluateLatch fifth_example latch_fifth =
     fifth_example\<lparr>r_settled := True, p_state := FulfilledWith FulfilledValues\<rparr>
   \<and> array_of fifth_example FulfilledValues = [JStr ''hi'']"
proof -
  have "\<not> r_settled fifth_example" by (simp add: fifth_example_def createResolver_def)
  from evaluateLatch_latch_rules [OF this, of latch_fifth]
  show ?thesis
    by (simp add: spec_rejects_def spec_fulfills_def spec_quotient_def opt_def latch_fifth_def
        fifth_example_def createResolver_def to_double_one to_double_fifth array_of_def
        num_def less_jsnum_def less_eq_jsnum_def)
qed

text \<open>
  Under a settlement latch of \<open>2\<close>, with two invocations fulfilled, one rejected and one
  pending, the publication is fulfilled with a new array.
\<close>

lemma evaluateLatch_settlement_latch:
  "evaluateLatch latch_example (map_of [(''latch'', ONum (Fin 2)), (''settlementLatch'', OBool True)]) =
     latch_example\<lparr>r_settled := True,
       p_state := FulfilledWith (NewArray [JNum (Fin 1), JNum (Fin 2), JStr ''no''])\<rparr>"
  by (simp add: evaluateLatch_def Let_def opt_def latch_example_def createResolver_def
      num_def less_jsnum_def less_eq_jsnum_def)

text \<open>
  The value of a settled publication is the array itself. Under
  \<open>updateAfterSettlement\<close>, the value that a later settlement of an invocation pushes
  is in the array with which the publication was fulfilled.
\<close>

lemma fulfilled_array_is_live:
  assumes "to_boolean (opt options ''updateAfterSettlement'')"
    and "r_settled resolver" and "r_i resolver < 0"
    and "p_state resolver = FulfilledWith FulfilledValues"
  shows "p_state (fulfill options resolver v) = FulfilledWith FulfilledValues
    \<and> array_of (fulfill options resolver v) FulfilledValues =
        array_of resolver FulfilledValues @ [v]"
  using assms
  by (simp add: fulfill_def resolveUse_def evaluateLatch_def Let_def array_of_def)

section \<open>Publishing without subscribers\<close>

lemma default_latch: "opt (b_options create) ''latch'' = ONum (Fin (9007199254740991 / 9007199254740992))"
  by (simp add: create_def opt_def)

lemma default_settlementLatch: "opt (b_options create) ''settlementLatch'' = OBool False"
  by (simp add: create_def opt_def)

lemma default_sync: "opt (b_options create) ''sync'' = OBool False"
  by (simp add: create_def opt_def)

lemma merge_empty: "merge a Map.empty = a"
  by (simp add: merge_def)

lemma resume_done:
  "r_i resolver < 0 \<Longrightarrow>
     resumeSubscriptionDispatcher topic d options subscriptions resolver = (None, resolver)"
  by (simp add: resumeSubscriptionDispatcher.simps)

text \<open>
  C3, as amended. A publication whose options have the broker's default latch
  (\<open>0.9999999999999999\<close>) and default \<open>settlementLatch\<close> (\<open>false\<close>) and whose dispatch
  list is empty is left pending: the dispatcher invokes no subscriber and the latch
  evaluation settles nothing, since \<open>0 / 0\<close> is \<open>NaN\<close> and the rule \<open>L < 1 && T == 0\<close>
  applies under a settlement latch only.
\<close>

theorem default_latch_no_subscriber_stays_pending:
  assumes "opt options ''latch'' = opt (b_options create) ''latch''"
    and "opt options ''settlementLatch'' = opt (b_options create) ''settlementLatch''"
  shows "subscriptionDispatcher topic d options [] =
      (None, createResolver\<lparr>r_i := - 1,
         r_resume := Some \<lparr>r_topic = topic, r_data = d, r_subscriptions = []\<rparr>\<rparr>)
    \<and> p_state (snd (subscriptionDispatcher topic d options [])) = Unsettled
    \<and> r_invoked (snd (subscriptionDispatcher topic d options [])) = []"
proof -
  let ?r = "createResolver\<lparr>r_i := - 1,
         r_resume := Some \<lparr>r_topic = topic, r_data = d, r_subscriptions = []\<rparr>\<rparr>"
  have l: "to_number (opt options ''latch'') = Fin (9007199254740991 / 9007199254740992)"
    using assms(1) by (simp add: default_latch)
  have s: "\<not> to_boolean (opt options ''settlementLatch'')"
    using assms(2) by (simp add: default_settlementLatch)
  have e: "evaluateLatch ?r options = ?r"
    unfolding evaluateLatch_def Let_def l
    using s by (simp add: createResolver_def num_def less_jsnum_def less_eq_jsnum_def)
  have r: "resumeSubscriptionDispatcher topic d options [] ?r = (None, ?r)"
    by (rule resume_done) simp
  have "subscriptionDispatcher topic d options [] = (None, ?r)"
    unfolding subscriptionDispatcher_def Let_def using r e by simp
  then show ?thesis by (simp add: createResolver_def)
qed

theorem default_latch_no_subscriber_stays_pending_witness:
  "p_state (snd (subscriptionDispatcher ''a'' JNull (merge (b_options create) Map.empty) [])) = Unsettled
   \<and> r_invoked (snd (subscriptionDispatcher ''a'' JNull (merge (b_options create) Map.empty) [])) = []"
  using default_latch_no_subscriber_stays_pending
    [of "merge (b_options create) Map.empty" "''a''" JNull]
  by (simp add: merge_empty createResolver_def)

lemma findLineage_create:
  "findLineage getTopic isAncestorTopic topic (Some (b_topics create)) = [[]]"
  by (simp add: findLineage.simps create_def createNode_def isAncestorTopic_def getTopic_def
      binaryIndexBy_def binaryIndexBy_loop.simps nth_opt_def Let_def)

lemma mergeBy_empty_arrays: "mergeBy getItemOrder [[]] = Inr []"
  by (simp add: mergeBy_def mergeBy_loop.simps)

text \<open>
  C3 as stated fails: on a fresh broker, the call that \<open>publish\<close> schedules under the
  default options returns a publication that is not rejected.
\<close>

theorem default_publish_no_subscriber_counterexample:
  "fst (run_task create (''a'', JNull, merge (b_options create) Map.empty)) =
     Inr (createResolver\<lparr>r_i := - 1,
       r_resume := Some \<lparr>r_topic = ''a'', r_data = JNull, r_subscriptions = []\<rparr>\<rparr>)
   \<and> p_state (createResolver\<lparr>r_i := - 1,
       r_resume := Some \<lparr>r_topic = ''a'', r_data = JNull, r_subscriptions = []\<rparr>\<rparr>)
     = Unsettled"
proof -
  have o: "opt (b_options create) ''preventBubble'' = OBool False"
    "opt (b_options create) ''persist'' = OBool False"
    by (simp_all add: create_def opt_def)
  have d: "subscriptionDispatcher ''a'' JNull (b_options create) [] =
      (None, createResolver\<lparr>r_i := - 1,
         r_resume := Some \<lparr>r_topic = ''a'', r_data = JNull, r_subscriptions = []\<rparr>\<rparr>)"
    using default_latch_no_subscriber_stays_pending [of "b_options create" "''a''" JNull] by simp
  have t: "b_topics create = Node [] [] [] []" by (simp add: create_def createNode_def)
  have g: "getSubscriptions (b_topics create) = []"
    by (simp add: getSubscriptions_def t)
  have h: "hierarchicalTopicDispatcher create ''a'' JNull (b_options create) =
      (Inr (createResolver\<lparr>r_i := - 1,
         r_resume := Some \<lparr>r_topic = ''a'', r_data = JNull, r_subscriptions = []\<rparr>\<rparr>), create)"
    unfolding hierarchicalTopicDispatcher_def findLineage_create Let_def
    by (simp add: o g mergeBy_empty_arrays d)
  show ?thesis
    unfolding run_task_def merge_empty
    by (simp add: h createResolver_def)
qed

section \<open>Code that departs from its documentation\<close>

text \<open>
  C1 fails on the code. With an effective \<open>sync\<close> that is falsy, \<open>publish\<close> on a string
  topic returns \<open>undefined\<close>, not a publication future: it returns the value of
  \<open>async\<close>, which only schedules the dispatch. The resolver and its promise are created
  by the scheduled call, whose result is dropped.
\<close>

theorem publish_async_returns_undefined:
  assumes "\<not> to_boolean (opt (merge (b_options state) optionsArg) ''sync'')"
  shows "publish state (JStr topic) d optionsArg =
    (Inr ReturnsUndefined, state, [(topic, d, merge (b_options state) optionsArg)])"
  using assms by (simp add: publish_def assert_def typeof_def async_def)

theorem publish_async_returns_undefined_witness:
  "fst (publish create (JStr ''a'') JNull Map.empty) = Inr ReturnsUndefined"
proof -
  have "\<not> to_boolean (opt (merge (b_options create) Map.empty) ''sync'')"
    by (simp add: merge_empty default_sync)
  from publish_async_returns_undefined [OF this] show ?thesis by simp
qed

text \<open>
  C7 fails on the code for a declared arity above three: the invoker tests
  \<open>fn.length === 3\<close>. A subscriber with four parameters that calls its third parameter
  with \<open>(null, 'hi')\<close> is called without the callback, and its invocation future rejects
  with the \<open>TypeError\<close> of that call instead of fulfilling with \<open>'hi'\<close>.
\<close>

theorem subscriptionInvoker_four_parameters:
  "subscriptionInvoker
     \<lparr>s_id = 0, s_fn = four_parameters, s_suspended = False, s_priority = Fin 0, s_context = JNull\<rparr>
     JNull ''a'' = Rejected type_error_value"
  by (simp add: subscriptionInvoker_def four_parameters_def)

text \<open>With exactly three parameters the invoker does what C7 says.\<close>

lemma subscriptionInvoker_three_parameters:
  assumes "fn_length (s_fn subscription) = 3"
    and "calls_done (fn_body (s_fn subscription) d (JStr topic)) = Some (err, succ)"
  shows "subscriptionInvoker subscription d topic =
    (if truthy err then Rejected err else Fulfilled succ)"
  using assms by (simp add: subscriptionInvoker_def)

lemma binaryIndexBy_getId_persisted: "binaryIndexBy getId_persisted v arr = 0"
proof -
  have "binaryIndexBy_loop getId_persisted v arr 0 high = 0" for high
  proof (induction high rule: less_induct)
    case (less high)
    show ?case
    proof (cases "0 < high")
      case True
      then have "high div 2 < high" by simp
      then show ?thesis
        using True less.IH [of "high div 2"]
        by (simp add: binaryIndexBy_loop.simps [of _ _ _ 0 high] getId_persisted_def
            less_jsnum_def Let_def)
    next
      case False
      then show ?thesis by (simp add: binaryIndexBy_loop.simps)
    qed
  qed
  then show ?thesis by (simp add: binaryIndexBy_def)
qed

section \<open>The options holder\<close>

lemma hierarchicalTopicDispatcher_options:
  "b_options (snd (hierarchicalTopicDispatcher state topic d options)) = b_options state"
  by (simp add: hierarchicalTopicDispatcher_def Let_def
      split: sum.splits prod.splits option.splits)

text \<open>
  C9. A call of \<open>subscribe\<close> or \<open>publish\<close>, whatever it is given and whether it returns or
  raises, and the dispatch that an asynchronous \<open>publish\<close> schedules, leave every field of
  the broker's options holder as it was. The options of the call are the fresh object
  built by \<open>merge\<close>: the per-call value where the call gives one, the broker's value
  otherwise. (A subscriber body does not call back into the broker in this model.)
\<close>

theorem options_holder_unchanged:
  "b_options (fst (snd (subscribe state topicArg subscription optionsArg ctx))) = b_options state
   \<and> b_options (fst (snd (publish state topicArg d optionsArg))) = b_options state
   \<and> b_options (snd (run_task state (topic, d, options))) = b_options state
   \<and> merge (b_options state) optionsArg x =
       (case optionsArg x of Some v \<Rightarrow> Some v | None \<Rightarrow> b_options state x)"
proof -
  have s: "b_options (fst (snd (subscribe state topicArg subscription optionsArg ctx))) = b_options state"
    by (simp add: subscribe_def Let_def
        split: sum.splits prod.splits option.splits jsval.splits)
  have h: "b_options (snd (hierarchicalTopicDispatcher state t d' opts)) = b_options state" for t d' opts
    by (rule hierarchicalTopicDispatcher_options)
  have p: "b_options (fst (snd (publish state topicArg d optionsArg))) = b_options state"
  proof (cases topicArg)
    case (JStr t)
    show ?thesis
    proof (cases "to_boolean (opt (merge (b_options state) optionsArg) ''sync'')")
      case True
      obtain res st where e: "hierarchicalTopicDispatcher state t d (merge (b_options state) optionsArg) = (res, st)"
        by (cases "hierarchicalTopicDispatcher state t d (merge (b_options state) optionsArg)")
      then have "b_options st = b_options state" using h [of t d "merge (b_options state) optionsArg"] by simp
      then show ?thesis
        using JStr True e by (cases res) (simp_all add: publish_def Let_def split: option.splits)
    next
      case False
      then show ?thesis using JStr by (simp add: publish_def Let_def async_def split: option.splits)
    qed
  qed (simp_all add: publish_def assert_def typeof_def)
  have r: "b_options (snd (run_task state (topic, d, options))) = b_options state"
    by (simp add: run_task_def h)
  show ?thesis using s p r by (simp add: merge_def)
qed

section \<open>The persisted messages of the tree\<close>

lemma insort_key_of_int:
  "insort_key (\<lambda>x. (of_int (f x) :: rat)) y ys = insort_key f y ys"
  by (induction ys) auto

lemma sort_key_of_int: "sort_key (\<lambda>x. (of_int (f x) :: rat)) xs = sort_key f xs"
  by (induction xs) (auto simp: insort_key_of_int)

lemma foldl_append_concat:
  "foldl (\<lambda>arr next. arr @ g next) acc xs = acc @ concat (map g xs)"
  by (induction xs arbitrary: acc) auto

lemma descendents_eq: "descendents node = node # concat (map descendents (n_children node))"
  by (subst descendents.simps) (simp add: foldl_append_concat)

lemma persisted_sorted_children:
  "persisted_sorted node \<Longrightarrow> child \<in> set (n_children node) \<Longrightarrow> persisted_sorted child"
  by (cases node) (auto simp: list_all_iff)

lemma persisted_sorted_here: "persisted_sorted node \<Longrightarrow> sorted (map m_order (n_persisted node))"
  by (cases node) auto

lemma persisted_sorted_descendents:
  "persisted_sorted node \<Longrightarrow> n \<in> set (descendents node) \<Longrightarrow> sorted (map m_order (n_persisted n))"
proof (induction node arbitrary: n rule: descendents.induct)
  case (1 node)
  from "1.prems"(2) consider "n = node" | child where "child \<in> set (n_children node)" "n \<in> set (descendents child)"
    by (subst (asm) descendents_eq) auto
  then show ?case
  proof cases
    case 1
    then show ?thesis using "1.prems"(1) by (simp add: persisted_sorted_here)
  next
    case 2
    then show ?thesis
      using "1.IH" [of child n] persisted_sorted_children [OF "1.prems"(1)] by blast
  qed
qed

lemma persisted_sorted_nodeAt: "persisted_sorted tree \<Longrightarrow> persisted_sorted (nodeAt tree path)"
proof (induction path arbitrary: tree)
  case Nil
  then show ?case by simp
next
  case (Cons c path)
  show ?case
  proof (cases "c < length (n_children tree)")
    case True
    then have "persisted_sorted (n_children tree ! c)"
      using Cons.prems persisted_sorted_children nth_mem by blast
    then show ?thesis using True Cons.IH by simp
  next
    case False
    then show ?thesis using Cons.prems by simp
  qed
qed

lemma persisted_sorted_updateAt:
  assumes "\<And>t. persisted_sorted t \<Longrightarrow> persisted_sorted (f t)"
  shows "persisted_sorted tree \<Longrightarrow> persisted_sorted (updateAt path f tree)"
proof (induction path arbitrary: tree)
  case Nil
  then show ?case using assms by simp
next
  case (Cons c path)
  obtain tp ss cs ps where t: "tree = Node tp ss cs ps" by (cases tree)
  show ?case
  proof (cases "c < length cs")
    case True
    have "persisted_sorted (cs ! c)" using Cons.prems t True by (simp add: list_all_length)
    then have "persisted_sorted (updateAt path f (cs ! c))" by (rule Cons.IH)
    then show ?thesis
      using Cons.prems t True by (auto simp: list_all_iff dest!: set_update_subset_insert [THEN subsetD])
  next
    case False
    then show ?thesis using Cons.prems t by simp
  qed
qed

lemma persisted_sorted_createNode: "persisted_sorted (createNode topic)"
  by (simp add: createNode_def)

lemma persisted_sorted_addChild:
  assumes "persisted_sorted (fst tree)" and "persisted_sorted newChild"
  shows "persisted_sorted (fst (addChild getValue newChild tree))"
proof -
  have "persisted_sorted (set_children (splice_in i newChild (n_children t)) t)"
    if "persisted_sorted t" for t i
    using that assms(2)
    by (cases t) (auto simp: set_children_def splice_in_def list_all_iff dest: in_set_takeD in_set_dropD)
  then show ?thesis
    using assms(1) by (simp add: addChild_def Let_def persisted_sorted_updateAt)
qed

lemma persisted_sorted_addFamilyLine:
  assumes "list_all persisted_sorted line"
  shows "persisted_sorted (fst tree) \<Longrightarrow>
    persisted_sorted (fst (addFamilyLine addChildTopic line tree))"
  using assms
proof (induction line arbitrary: tree)
  case Nil
  then show ?case by (simp add: addFamilyLine_def reduce_def)
next
  case (Cons x line)
  have "persisted_sorted (fst (addChildTopic tree x))"
    using Cons.prems by (simp add: addChildTopic_def persisted_sorted_addChild)
  from Cons.IH [OF this] Cons.prems(2) show ?case
    by (simp add: addFamilyLine_def reduce_def)
qed

lemma persisted_sorted_addTopicLine:
  "persisted_sorted (fst ancestor) \<Longrightarrow> persisted_sorted (fst (addTopicLine topic ancestor))"
  unfolding addTopicLine_def Let_def
  by (rule persisted_sorted_addFamilyLine)
    (simp_all add: list_all_iff persisted_sorted_createNode)

lemma persisted_sorted_set_subscriptions:
  "persisted_sorted t \<Longrightarrow> persisted_sorted (set_subscriptions ss t)"
  by (cases t) (simp add: set_subscriptions_def)

text \<open>The persisted messages of a subtree whose lists are sorted merge into their sort.\<close>

lemma mergeBy_persisted:
  assumes "\<forall>n \<in> set ns. sorted (map m_order (n_persisted n))"
  shows "mergeBy getFingerArrayOrder (map getPersisted ns) =
    Inr (map Item (sort_key m_order (concat (map n_persisted ns))))"
proof -
  have k: "\<forall>fa. getFingerArrayOrder fa =
      (case getPointedFinger fa of SYMBOL_NOTHING \<Rightarrow> PInf | Item x \<Rightarrow> getOrder x)"
    by (simp add: getFingerArrayOrder_def)
  have f: "\<forall>a \<in> set (map getPersisted ns). \<forall>x \<in> set a.
      getOrder x = Fin (rat_of_int (m_order x))"
    by (simp add: getOrder_def num_def)
  have s: "\<forall>a \<in> set (map getPersisted ns). sorted (map (\<lambda>x. rat_of_int (m_order x)) a)"
  proof
    fix a assume "a \<in> set (map getPersisted ns)"
    then have "sorted (map m_order a)" using assms by (auto simp: getPersisted_def)
    then show "sorted (map (\<lambda>x. rat_of_int (m_order x)) a)"
      by (simp add: sorted_map sorted_wrt_iff_nth_less)
  qed
  have g: "map getPersisted ns = map n_persisted ns" by (simp add: getPersisted_def)
  show ?thesis
    using mergeBy_sort_key [OF k f s] by (simp add: sort_key_of_int g)
qed

lemma notifyPersisted_all:
  assumes "\<not> fn_suspended f" and "\<forall>m \<in> set ms. returns_normally f m"
  shows "notifyPersisted (SFunction f) (map Item ms) calls = (None, calls @ map delivery ms)"
  using assms(2)
proof (induction ms arbitrary: calls)
  case Nil
  then show ?case by simp
next
  case (Cons m ms)
  then have r: "returns_normally f m" by simp
  have "notifyPersisted (SFunction f) (map Item (m # ms)) calls =
      notifyPersisted (SFunction f) (map Item ms) (calls @ [delivery m])"
    using assms(1) r
    by (auto simp: returns_normally_def delivery_def Let_def split: completion.splits)
  then show ?case using Cons by simp
qed

lemma notifyPersisted_suspended:
  "fn_suspended f \<Longrightarrow> notifyPersisted (SFunction f) ms calls = (None, calls)"
  by (induction ms arbitrary: calls) auto

section \<open>Late delivery of persisted messages\<close>

lemma assert_string:
  "assert (typeof (JStr topic)) ''string'' method type identifier = None"
  by (simp add: assert_def typeof_def)

lemma subscribe_string:
  assumes "persisted_sorted (b_topics state)"
  shows "subscribe state (JStr topic) subscription optionsArg ctx =
    (let options = merge (b_options state) optionsArg;
         node = createSubscription (b_id state) subscription options ctx;
         topics = updateAt (subscription_ref state topic)
                     (\<lambda>t. set_subscriptions (insert_js getPriority node (n_subscriptions t)) t)
                     (fst (addTopicLine topic
                        (b_topics state, ancestorTopicSearch topic (b_topics state))));
         state' = state\<lparr>b_topics := topics, b_id := b_id state + 1\<rparr>;
         subscriptionToken =
           \<lparr>t_topic = topic, t_id = s_id node, t_priority = Some (s_priority node)\<rparr>
     in
       if \<not> to_boolean (opt options ''ignorePersisted'') then
         (case notifyPersisted subscription
                 (map Item (sort_key m_order (concat (map n_persisted
                    (descendents (nodeAt topics (subscription_ref state topic)))))))
                 [] of
            (Some e, calls) \<Rightarrow> (Inl e, state', calls)
          | (None, calls) \<Rightarrow> (Inr subscriptionToken, state', calls))
       else (Inr subscriptionToken, state', []))"
proof -
  let ?options = "merge (b_options state) optionsArg"
  let ?node = "createSubscription (b_id state) subscription ?options ctx"
  let ?anc = "addTopicLine topic (b_topics state, ancestorTopicSearch topic (b_topics state))"
  let ?topics = "updateAt (snd ?anc)
      (\<lambda>t. set_subscriptions (insert_js getPriority ?node (n_subscriptions t)) t) (fst ?anc)"
  have 1: "persisted_sorted (fst ?anc)"
    using assms by (simp add: persisted_sorted_addTopicLine)
  have 2: "persisted_sorted ?topics"
    using 1 by (rule persisted_sorted_updateAt [rotated]) (rule persisted_sorted_set_subscriptions)
  have 3: "\<forall>n \<in> set (descendents (nodeAt ?topics (snd ?anc))). sorted (map m_order (n_persisted n))"
    using persisted_sorted_descendents [OF persisted_sorted_nodeAt [OF 2]] by blast
  note m = mergeBy_persisted [OF 3]
  show ?thesis
    unfolding subscribe_def assert_string subscription_ref_def Let_def
    by (simp add: m)
qed

text \<open>
  What the replay of \<open>subscribe\<close> does for a function that carries no truthy property
  \<open>suspended\<close> and returns normally on every message. The messages replayed are those
  stored in the subtree of the node where the subscription is registered, which
  \<open>ancestorTopicSearch\<close> and \<open>addTopicLine\<close> find or build; they are replayed once
  each, in ascending order of \<open>order\<close>, and none is replayed with \<open>ignorePersisted\<close>.
\<close>

lemma subscribe_replays_subtree:
  assumes "persisted_sorted (b_topics state)"
    and "\<not> fn_suspended f"
    and "\<forall>m. returns_normally f m"
  shows "\<exists>tok state' ms. subscribe state (JStr topic) (SFunction f) optionsArg ctx =
        (Inr tok, state', map delivery ms)
    \<and> sorted (map m_order ms)
    \<and> (if to_boolean (opt (merge (b_options state) optionsArg) ''ignorePersisted'') then ms = []
       else mset ms = mset (concat (map n_persisted
              (descendents (nodeAt (b_topics state') (subscription_ref state topic))))))"
proof (cases "to_boolean (opt (merge (b_options state) optionsArg) ''ignorePersisted'')")
  case True
  then show ?thesis
    unfolding subscribe_string [OF assms(1)] Let_def by simp
next
  case False
  define node where
    "node = createSubscription (b_id state) (SFunction f) (merge (b_options state) optionsArg) ctx"
  define topics where
    "topics = updateAt (subscription_ref state topic)
       (\<lambda>t. set_subscriptions (insert_js getPriority node (n_subscriptions t)) t)
       (fst (addTopicLine topic (b_topics state, ancestorTopicSearch topic (b_topics state))))"
  define ms where
    "ms = sort_key m_order (concat (map n_persisted
       (descendents (nodeAt topics (subscription_ref state topic)))))"
  have n: "notifyPersisted (SFunction f) (map Item ms) [] = (None, map delivery ms)"
    using notifyPersisted_all [OF assms(2), of ms "[]"] assms(3) by simp
  have e: "subscribe state (JStr topic) (SFunction f) optionsArg ctx =
      (Inr \<lparr>t_topic = topic, t_id = s_id node, t_priority = Some (s_priority node)\<rparr>,
       state\<lparr>b_topics := topics, b_id := b_id state + 1\<rparr>, map delivery ms)"
    unfolding subscribe_string [OF assms(1)] Let_def
    using False n by (simp add: node_def topics_def ms_def)
  have "sorted (map m_order ms)" by (simp add: ms_def)
  moreover have "mset ms = mset (concat (map n_persisted
      (descendents (nodeAt (b_topics (state\<lparr>b_topics := topics, b_id := b_id state + 1\<rparr>))
         (subscription_ref state topic)))))"
    by (simp add: ms_def)
  ultimately show ?thesis using e False by (metis (no_types, lifting))
qed

lemma binaryIndexBy_single_equal:
  "getValue x = v \<Longrightarrow> binaryIndexBy getValue v [x] = 0"
  for v :: "'k::order"
  by (simp add: binaryIndexBy_def binaryIndexBy_loop.simps [of getValue v "[x]" 0]
      binaryIndexBy_loop.simps [of getValue v "[x]" 0 0] Let_def)

lemma ancestorTopicSearch_replay: "ancestorTopicSearch ''x'' replay_tree = [0]"
proof -
  have b: "binaryIndexBy getTopic ''x'' (n_children replay_tree) = 0"
    unfolding replay_tree_def by (simp add: binaryIndexBy_single_equal getTopic_def)
  have r: "getTopic replay_tree \<noteq> ''x''" by (simp add: replay_tree_def getTopic_def)
  have c: "nth_opt (n_children replay_tree) 0 = Some (n_children replay_tree ! 0)"
    by (simp add: nth_opt_def replay_tree_def)
  have i: "isAncestorTopic ''x'' (n_children replay_tree ! 0)"
    by (simp add: isAncestorTopic_def getTopic_def replay_tree_def)
  have e: "getTopic (n_children replay_tree ! 0) = ''x''"
    by (simp add: getTopic_def replay_tree_def)
  show ?thesis
    unfolding ancestorTopicSearch_def
    by (subst ancestorSearch.simps) (simp add: r b c i Let_def ancestorSearch.simps [of _ _ _ "n_children replay_tree ! 0"] e)
qed

lemma addTopicLine_same:
  "n_topic (nodeAt (fst ancestor) (snd ancestor)) = topic \<Longrightarrow> addTopicLine topic ancestor = ancestor"
  by (simp add: addTopicLine_def addFamilyLine_def reduce_def)

lemma subscription_ref_replay: "subscription_ref replay_state ''x'' = [0]"
proof -
  have "n_topic (nodeAt replay_tree [0]) = ''x''" by (simp add: replay_tree_def)
  then show ?thesis
    by (simp add: subscription_ref_def replay_state_def ancestorTopicSearch_replay addTopicLine_same)
qed

lemma addTopicLine_replay:
  "addTopicLine ''x'' (replay_tree, [0]) = (replay_tree, [0])"
  by (rule addTopicLine_same) (simp add: replay_tree_def)

lemma replay_messages:
  "sort_key m_order (concat (map n_persisted (descendents (nodeAt
     (updateAt [0] (\<lambda>t. set_subscriptions (g t) t) replay_tree) [0])))) =
   [\<lparr>m_topic = ''x.y'', m_data = JNum (Fin 1), m_order = - 9007199254740992\<rparr>,
    \<lparr>m_topic = ''x'', m_data = JNum (Fin 2), m_order = - 9007199254740991\<rparr>,
    \<lparr>m_topic = ''x'', m_data = JNum (Fin 3), m_order = - 9007199254740990\<rparr>]"
  by (simp add: replay_tree_def set_subscriptions_def descendents_eq)

lemma persisted_sorted_replay: "persisted_sorted (b_topics replay_state)"
  by (simp add: replay_state_def replay_tree_def)

lemma subscribe_replay:
  "\<exists>tok st. subscribe replay_state (JStr ''x'') subscription Map.empty JNull =
     (case notifyPersisted subscription
        [Item \<lparr>m_topic = ''x.y'', m_data = JNum (Fin 1), m_order = - 9007199254740992\<rparr>,
         Item \<lparr>m_topic = ''x'', m_data = JNum (Fin 2), m_order = - 9007199254740991\<rparr>,
         Item \<lparr>m_topic = ''x'', m_data = JNum (Fin 3), m_order = - 9007199254740990\<rparr>] [] of
        (Some e, calls) \<Rightarrow> (Inl e, st, calls)
      | (None, calls) \<Rightarrow> (Inr tok, st, calls))"
proof -
  have i: "\<not> to_boolean (opt (merge (b_options replay_state) Map.empty) ''ignorePersisted'')"
    by (simp add: merge_def opt_def replay_state_def create_def)
  have t: "b_topics replay_state = replay_tree" by (simp add: replay_state_def)
  show ?thesis
    unfolding subscribe_string [OF persisted_sorted_replay] Let_def subscription_ref_replay t
      ancestorTopicSearch_replay addTopicLine_replay fst_conv replay_messages
    using i by (simp only: if_True not_False_eq_True list.map) blast
qed

text \<open>
  C4 fails on the code. After three persisted publications, \<open>subscribe('x')\<close> with no
  subscriber function raises a \<open>TypeError\<close>: the loop over the persisted messages reads
  \<open>suspended\<close> on the \<open>subscription\<close> argument itself, not on the subscription object
  in which \<open>createSubscription\<close> has put the no-op.
\<close>

theorem subscribe_not_callable_raises:
  "fst (subscribe replay_state (JStr ''x'') SNullish Map.empty JNull) = Inl TypeError"
  using subscribe_replay [of SNullish] by auto

text \<open>
  The replay calls the function outside any \<open>try\<close>: the exception of a function that
  throws leaves \<open>subscribe\<close> after the first delivery, and the two other persisted
  messages are not delivered.
\<close>

lemma subscribe_thrower_raises:
  "fst (subscribe replay_state (JStr ''x'') (SFunction thrower) Map.empty JNull) =
     Inl (Thrown (JStr ''bye''))
   \<and> snd (snd (subscribe replay_state (JStr ''x'') (SFunction thrower) Map.empty JNull)) =
     [(JNum (Fin 1), JStr ''x.y'')]"
  using subscribe_replay [of "SFunction thrower"] by (auto simp: thrower_def)

lemma subscribe_replays_subtree_example:
  "(\<exists>tok state' ms. subscribe replay_state (JStr ''x'') (SFunction echo) Map.empty JNull =
        (Inr tok, state', map delivery ms)
    \<and> sorted (map m_order ms)
    \<and> (if to_boolean (opt (merge (b_options replay_state) Map.empty) ''ignorePersisted'')
       then ms = []
       else mset ms = mset (concat (map n_persisted
              (descendents (nodeAt (b_topics state') (subscription_ref replay_state ''x'')))))))
   \<and> snd (snd (subscribe replay_state (JStr ''x'') (SFunction echo) Map.empty JNull)) =
     [(JNum (Fin 1), JStr ''x.y''), (JNum (Fin 2), JStr ''x''), (JNum (Fin 3), JStr ''x'')]"
proof -
  have s: "\<not> fn_suspended echo" by (simp add: echo_def)
  have r: "\<forall>m. returns_normally echo m" by (simp add: returns_normally_def echo_def)
  have c: "snd (snd (subscribe replay_state (JStr ''x'') (SFunction echo) Map.empty JNull)) =
     [(JNum (Fin 1), JStr ''x.y''), (JNum (Fin 2), JStr ''x''), (JNum (Fin 3), JStr ''x'')]"
    using subscribe_replay [of "SFunction echo"] by (auto simp: echo_def)
  show ?thesis
    using subscribe_replays_subtree [OF persisted_sorted_replay s r, of "''x''" Map.empty JNull] c
    by blast
qed

text \<open>
  C5 fails on the code. \<open>removePersisted\<close> searches the persisted list with \<open>getId\<close>,
  and a persisted message has no \<open>id\<close>: the search always answers index \<open>0\<close>. The
  second message of node \<open>x\<close> is not removed, and the result is \<open>false\<close>.
\<close>

theorem removePersisted_second_message:
  "removePersisted replay_tree
     (TokenObject \<lparr>t_topic = ''x'', t_id = - 9007199254740990, t_priority = None\<rparr>) =
   (False, replay_tree)"
  by (simp add: removePersisted_def ancestorTopicSearch_replay
      binaryIndexBy_getId_persisted nth_opt_def Let_def)
    (simp add: replay_tree_def)

text \<open>The first message of the node is removed, as C5 says.\<close>

lemma removePersisted_first_message:
  "removePersisted replay_tree
     (TokenObject \<lparr>t_topic = ''x'', t_id = - 9007199254740991, t_priority = None\<rparr>) =
   (True, Node [] []
       [Node ''x'' []
          [Node ''x.y'' [] []
             [\<lparr>m_topic = ''x.y'', m_data = JNum (Fin 1), m_order = - 9007199254740992\<rparr>]]
          [\<lparr>m_topic = ''x'', m_data = JNum (Fin 3), m_order = - 9007199254740990\<rparr>]]
       [])"
  by (simp add: removePersisted_def ancestorTopicSearch_replay
      binaryIndexBy_getId_persisted nth_opt_def Let_def)
    (simp add: replay_tree_def splice_out_def set_persisted_def)

section \<open>The order of the launches\<close>

lemma drop_step:
  assumes "0 \<le> i" and "i < int (length S)"
  shows "drop (nat (i - 1 + 1)) S = S ! nat i # drop (nat (i + 1)) S"
proof -
  have "nat (i + 1) = Suc (nat i)" using assms by simp
  moreover have "nat i < length S" using assms by simp
  ultimately show ?thesis by (simp add: Cons_nth_drop_Suc)
qed

lemma resume_launch_inv:
  assumes "launch_inv S topic d r"
  shows "fst (resumeSubscriptionDispatcher topic d options (map Item S) r) = None
    \<and> launch_inv S topic d (snd (resumeSubscriptionDispatcher topic d options (map Item S) r))
    \<and> (to_number (opt options ''semaphor'') = PInf \<longrightarrow>
         r_i (snd (resumeSubscriptionDispatcher topic d options (map Item S) r)) = - 1)"
  using assms
proof (induction topic d options "map Item S" r rule: resumeSubscriptionDispatcher.induct)
  case (1 topic d options resolver)
  let ?go = "r_i resolver \<ge> 0 \<and> num (p_pending resolver) < to_number (opt options ''semaphor'')"
  show ?case
  proof (cases ?go)
    case False
    then have e: "resumeSubscriptionDispatcher topic d options (map Item S) resolver = (None, resolver)"
      by (subst resumeSubscriptionDispatcher.simps) (simp only: if_False)
    have "to_number (opt options ''semaphor'') = PInf \<longrightarrow> r_i resolver = - 1"
      using False "1.prems" by (auto simp: launch_inv_def num_def less_jsnum_def)
    then show ?thesis using e "1.prems" by simp
  next
    case True
    then have i0: "0 \<le> r_i resolver" by simp
    have il: "r_i resolver < int (length S)" using "1.prems" by (simp add: launch_inv_def)
    have n: "nth_opt (map Item S) (r_i resolver) = Some (Item (S ! nat (r_i resolver)))"
      using i0 il by (simp add: nth_opt_def)
    let ?s = "S ! nat (r_i resolver)"
    show ?thesis
    proof (cases "s_suspended ?s")
      case False
      let ?r = "resolver\<lparr>p_pending := p_pending resolver + 1,
                    r_invoked := r_invoked resolver @ [(?s, subscriptionInvoker ?s d topic)],
                    r_i := r_i resolver - 1\<rparr>"
      have e: "resumeSubscriptionDispatcher topic d options (map Item S) resolver =
          resumeSubscriptionDispatcher topic d options (map Item S) ?r"
        using True n False by (subst resumeSubscriptionDispatcher.simps) simp
      have inv: "launch_inv S topic d ?r"
        using "1.prems" i0 il False drop_step [OF i0 il] by (simp add: launch_inv_def)
      show ?thesis
        unfolding e by (rule "1.hyps"(1) [OF True n refl False inv])
    next
      case susp: True
      let ?r = "resolver\<lparr>r_i := r_i resolver - 1\<rparr>"
      have e: "resumeSubscriptionDispatcher topic d options (map Item S) resolver =
          resumeSubscriptionDispatcher topic d options (map Item S) ?r"
        using True n susp by (subst resumeSubscriptionDispatcher.simps) simp
      have inv: "launch_inv S topic d ?r"
        using "1.prems" i0 il susp drop_step [OF i0 il] by (simp add: launch_inv_def)
      have ns: "\<not> \<not> s_suspended ?s" using susp by simp
      show ?thesis
        unfolding e by (rule "1.hyps"(2) [OF True n refl ns inv])
    qed
  qed
qed

lemma evaluateLatch_launch_inv:
  "launch_inv S topic d r \<Longrightarrow> launch_inv S topic d (evaluateLatch r options)"
  by (simp add: evaluateLatch_def launch_inv_def Let_def)

lemma resolveUse_launch_inv:
  assumes "launch_inv S topic d r"
  shows "launch_inv S topic d (resolveUse appendList increment options r v)"
proof (cases "r_settled r \<and> \<not> to_boolean (opt options ''updateAfterSettlement'')")
  case True
  then show ?thesis using assms by (simp add: resolveUse_def)
next
  case False
  define r1 where "r1 =
    (if appendList = ''fulfilledValues''
     then r\<lparr>r_fulfilledValues := r_fulfilledValues r @ [v]\<rparr>
     else if appendList = ''rejectedValues''
     then r\<lparr>r_rejectedValues := r_rejectedValues r @ [v]\<rparr>
     else r)"
  define r2 where "r2 =
    (if increment = ''fulfilled'' then r1\<lparr>p_fulfilled := p_fulfilled r1 + 1\<rparr>
     else if increment = ''rejected'' then r1\<lparr>p_rejected := p_rejected r1 + 1\<rparr>
     else r1)"
  define r3 where "r3 = r2\<lparr>p_pending := p_pending r2 - 1\<rparr>"
  have i3: "launch_inv S topic d r3"
    using assms by (simp add: r3_def r2_def r1_def launch_inv_def)
  have e: "resolveUse appendList increment options r v =
      (if r_i r3 \<ge> 0 then
         (case r_resume r3 of
            None \<Rightarrow> r3
          | Some resume \<Rightarrow>
              snd (resumeSubscriptionDispatcher (r_topic resume) (r_data resume) options
                     (r_subscriptions resume) r3))
       else evaluateLatch r3 options)"
    using False unfolding resolveUse_def Let_def r3_def r2_def r1_def by (simp only: if_False)
  have res: "r_resume r3 = Some \<lparr>r_topic = topic, r_data = d, r_subscriptions = map Item S\<rparr>"
    using i3 by (simp add: launch_inv_def)
  show ?thesis
    unfolding e res
    using resume_launch_inv [OF i3, of options] evaluateLatch_launch_inv [OF i3, of options]
    by simp
qed

lemma settle_launch_inv:
  "launch_inv S topic d r \<Longrightarrow> launch_inv S topic d (settle options r event)"
  by (cases event) (simp_all add: fulfill_def reject_def resolveUse_launch_inv)

lemma settle_all_launch_inv:
  "launch_inv S topic d r \<Longrightarrow> launch_inv S topic d (settle_all options r events)"
  unfolding settle_all_def
  by (induction events arbitrary: r) (simp_all add: settle_launch_inv)

lemma subscriptionDispatcher_launch_inv:
  "fst (subscriptionDispatcher topic d options (map Item S)) = None
   \<and> launch_inv S topic d (snd (subscriptionDispatcher topic d options (map Item S)))
   \<and> (to_number (opt options ''semaphor'') = PInf \<longrightarrow>
        r_i (snd (subscriptionDispatcher topic d options (map Item S))) = - 1)"
proof -
  let ?r = "createResolver
            \<lparr>r_i := int (length (map Item S)) - 1,
             r_resume := Some \<lparr>r_topic = topic, r_data = d, r_subscriptions = map Item S\<rparr>\<rparr>"
  have i: "launch_inv S topic d ?r" by (simp add: launch_inv_def createResolver_def)
  obtain r' where e: "resumeSubscriptionDispatcher topic d options (map Item S) ?r = (None, r')"
    using resume_launch_inv [OF i, of options]
    by (cases "resumeSubscriptionDispatcher topic d options (map Item S) ?r") auto
  have i': "launch_inv S topic d r'"
    and p: "to_number (opt options ''semaphor'') = PInf \<longrightarrow> r_i r' = - 1"
    using resume_launch_inv [OF i, of options] e by simp_all
  have s: "subscriptionDispatcher topic d options (map Item S) = (None, evaluateLatch r' options)"
    unfolding subscriptionDispatcher_def Let_def e by simp
  have "r_i (evaluateLatch r' options) = r_i r'" by (simp add: evaluateLatch_def Let_def)
  then show ?thesis using s evaluateLatch_launch_inv [OF i'] p by simp
qed

text \<open>What the invariant says about the subscriptions launched so far.\<close>

lemma launch_inv_prefix:
  assumes "launch_inv S topic d r"
  shows "\<exists>rest. rev (filter (\<lambda>s. \<not> s_suspended s) S) = map fst (r_invoked r) @ rest"
proof -
  let ?j = "nat (r_i r + 1)"
  have "rev (filter (\<lambda>s. \<not> s_suspended s) S) =
      rev (filter (\<lambda>s. \<not> s_suspended s) (take ?j S @ drop ?j S))" by simp
  also have "\<dots> = filter (\<lambda>s. \<not> s_suspended s) (rev (drop ?j S))
      @ filter (\<lambda>s. \<not> s_suspended s) (rev (take ?j S))"
    by (simp only: filter_append rev_append rev_filter)
  finally show ?thesis using assms by (simp add: launch_inv_def comp_def rev_filter)
qed

lemma launch_inv_all:
  assumes "launch_inv S topic d r" and "r_i r = - 1"
  shows "map fst (r_invoked r) = rev (filter (\<lambda>s. \<not> s_suspended s) S)"
  using assms by (simp add: launch_inv_def comp_def rev_filter)

lemma registry_order_sorted: "registry_order l \<Longrightarrow> sorted (map priority_of l)"
  unfolding registry_order_def sorted_map
  by (erule conjE, erule sorted_wrt_mono_rel [rotated]) auto

lemma mergeBy_priority:
  assumes "\<forall>l \<in> set lss. registry_order l"
  shows "mergeBy getFingerArrayPriority lss =
    Inr (map Item (sort_key priority_of (concat lss)))"
proof -
  have k: "\<forall>fa. getFingerArrayPriority fa =
      (case getPointedFinger fa of SYMBOL_NOTHING \<Rightarrow> PInf | Item x \<Rightarrow> getPriority x)"
    by (simp add: getFingerArrayPriority_def)
  have f: "\<forall>a \<in> set lss. \<forall>x \<in> set a. getPriority x = Fin (priority_of x)"
    using assms by (auto simp: registry_order_def list_all_iff getPriority_def)
  have s: "\<forall>a \<in> set lss. sorted (map priority_of a)"
    using assms registry_order_sorted by blast
  show ?thesis by (rule mergeBy_sort_key [OF k f s])
qed

lemma launch_order_descending:
  "sorted (rev (map k (rev (filter P (sort_key k xs)))))"
  for k :: "'a \<Rightarrow> rat"
  by (simp add: rev_map sorted_filter)

lemma launch_order_groups:
  "filter (\<lambda>s. k s = p) (rev (filter P (sort_key k (concat lss)))) =
     concat (rev (map (\<lambda>l. rev (filter (\<lambda>s. k s = p \<and> P s) l)) lss))"
  for k :: "'a \<Rightarrow> rat"
proof -
  have "filter (\<lambda>s. k s = p) (rev (filter P (sort_key k (concat lss)))) =
      rev (filter P (filter (\<lambda>s. k s = p) (sort_key k (concat lss))))"
    by (simp add: rev_filter conj_commute)
  also have "\<dots> = rev (filter P (filter (\<lambda>s. k s = p) (concat lss)))"
    by (simp only: sort_key_stable)
  also have "\<dots> = rev (concat (map (filter (\<lambda>s. k s = p \<and> P s)) lss))"
    by (simp add: filter_concat comp_def conj_commute)
  also have "\<dots> = concat (rev (map (\<lambda>l. rev (filter (\<lambda>s. k s = p \<and> P s) l)) lss))"
    by (simp add: rev_concat rev_map comp_def)
  finally show ?thesis .
qed

lemma registry_order_group:
  assumes "registry_order l"
  shows "sorted_wrt (<) (map s_id (rev (filter (\<lambda>s. priority_of s = p \<and> P s) l)))"
proof -
  let ?R = "\<lambda>a b. priority_of a < priority_of b \<or> (priority_of a = priority_of b \<and> s_id b < s_id a)"
  let ?f = "filter (\<lambda>s. priority_of s = p \<and> P s) l"
  have "sorted_wrt ?R ?f" using assms by (simp add: registry_order_def sorted_wrt_filter)
  then have "sorted_wrt (\<lambda>a b. s_id b < s_id a) ?f"
    by (rule sorted_wrt_mono_rel [rotated]) auto
  then have "sorted_wrt (\<lambda>a b. s_id a < s_id b) (rev ?f)" by (simp add: sorted_wrt_rev)
  then show ?thesis by (simp add: sorted_wrt_map)
qed

lemma findLineage_root:
  "n_topic tree = [] \<Longrightarrow> findLineage getTopic isAncestorTopic topic (Some tree) \<noteq> []"
  by (subst findLineage.simps) (simp add: isAncestorTopic_def getTopic_def Let_def)

lemma dispatch_launch_inv:
  assumes "n_topic (b_topics state) = []"
    and "\<not> to_boolean (opt options ''preventBubble'')"
    and "\<forall>l \<in> set (lineage_subscriptions state topic). registry_order l"
  shows "\<exists>r. fst (hierarchicalTopicDispatcher state topic d options) = Inr r
    \<and> launch_inv (sort_key priority_of (concat (lineage_subscriptions state topic))) topic d r
    \<and> (to_number (opt options ''semaphor'') = PInf \<longrightarrow> r_i r = - 1)"
proof -
  let ?S = "sort_key priority_of (concat (lineage_subscriptions state topic))"
  let ?lineage = "findLineage getTopic isAncestorTopic topic (Some (b_topics state))"
  have ne: "?lineage \<noteq> []" using assms(1) by (rule findLineage_root)
  have m: "mergeBy getFingerArrayPriority
      (map (\<lambda>ref. getSubscriptions (nodeAt (b_topics state) ref)) ?lineage) = Inr (map Item ?S)"
    using mergeBy_priority [OF assms(3)] by (simp add: lineage_subscriptions_def)
  obtain r0 where d: "subscriptionDispatcher topic d options (map Item ?S) = (None, r0)"
    and i: "launch_inv ?S topic d r0"
    and p: "to_number (opt options ''semaphor'') = PInf \<longrightarrow> r_i r0 = - 1"
    using subscriptionDispatcher_launch_inv [of topic d options ?S]
    by (cases "subscriptionDispatcher topic d options (map Item ?S)") auto
  have t: "launch_inv ?S topic d (r0\<lparr>p_token := tk\<rparr>)" for tk
    using i by (simp add: launch_inv_def)
  have tn: "(if ?lineage = [] then None else Some (last ?lineage)) = Some (last ?lineage)"
    using ne by simp
  show ?thesis
  proof (cases "to_boolean (opt options ''persist'')")
    case True
    have "fst (hierarchicalTopicDispatcher state topic d options) =
        Inr (r0\<lparr>p_token := Some \<lparr>t_topic = topic, t_id = b_id state, t_priority = None\<rparr>\<rparr>)"
      unfolding hierarchicalTopicDispatcher_def Let_def m tn
      using assms(2) True by (simp add: d)
    then show ?thesis using t p by (intro exI conjI) (assumption, simp_all)
  next
    case False
    have "fst (hierarchicalTopicDispatcher state topic d options) = Inr r0"
      unfolding hierarchicalTopicDispatcher_def Let_def m tn
      using assms(2) False by (simp add: d)
    then show ?thesis using i p by blast
  qed
qed

text \<open>
  C6, as amended. For a publish without \<open>preventBubble\<close> on a broker whose root is the
  empty topic and whose subscription lists along the lineage are in registry order, let
  \<open>L\<close> be the non-suspended subscriptions of the lineage in descending order of
  priority, those of equal priority in the reverse of their order in the concatenated
  lists. The dispatcher returns a publication; whatever the semaphore and however the
  invocations settle afterwards, the subscriptions launched so far are a beginning of
  \<open>L\<close>, in this order, and with an infinite semaphore all of \<open>L\<close> is launched by the
  dispatcher itself. In \<open>L\<close> the priorities descend, regardless of the depth of the
  nodes; among subscriptions of equal priority those of a deeper node of the lineage
  come before those of a node nearer the root, and those of one node come in ascending
  order of their identifiers, which is their order of registration.
\<close>

theorem publish_launch_order:
  assumes "n_topic (b_topics state) = []"
    and "\<not> to_boolean (opt options ''preventBubble'')"
    and "\<forall>l \<in> set (lineage_subscriptions state topic). registry_order l"
  shows "let lss = lineage_subscriptions state topic;
             L = rev (filter (\<lambda>s. \<not> s_suspended s) (sort_key priority_of (concat lss)))
         in (\<exists>r. fst (hierarchicalTopicDispatcher state topic d options) = Inr r
               \<and> (\<forall>events. \<exists>rest. L = map fst (r_invoked (settle_all options r events)) @ rest)
               \<and> (to_number (opt options ''semaphor'') = PInf \<longrightarrow> map fst (r_invoked r) = L))
            \<and> sorted (rev (map priority_of L))
            \<and> (\<forall>p. filter (\<lambda>s. priority_of s = p) L =
                  concat (rev (map (\<lambda>l. rev (filter
                    (\<lambda>s. priority_of s = p \<and> \<not> s_suspended s) l)) lss)))
            \<and> (\<forall>l \<in> set lss. \<forall>p. sorted_wrt (<) (map s_id (rev (filter
                    (\<lambda>s. priority_of s = p \<and> \<not> s_suspended s) l))))"
proof -
  let ?lss = "lineage_subscriptions state topic"
  let ?S = "sort_key priority_of (concat ?lss)"
  let ?L = "rev (filter (\<lambda>s. \<not> s_suspended s) ?S)"
  obtain r where r: "fst (hierarchicalTopicDispatcher state topic d options) = Inr r"
    and i: "launch_inv ?S topic d r"
    and p: "to_number (opt options ''semaphor'') = PInf \<longrightarrow> r_i r = - 1"
    using dispatch_launch_inv [OF assms] by blast
  have a: "\<forall>events. \<exists>rest. ?L = map fst (r_invoked (settle_all options r events)) @ rest"
    using launch_inv_prefix [OF settle_all_launch_inv [OF i]] by blast
  have b: "to_number (opt options ''semaphor'') = PInf \<longrightarrow> map fst (r_invoked r) = ?L"
    using launch_inv_all [OF i] p by blast
  have c: "sorted (rev (map priority_of ?L))" by (rule launch_order_descending)
  have e: "\<forall>p. filter (\<lambda>s. priority_of s = p) ?L =
      concat (rev (map (\<lambda>l. rev (filter (\<lambda>s. priority_of s = p \<and> \<not> s_suspended s) l)) ?lss))"
    by (rule allI) (rule launch_order_groups)
  have f: "\<forall>l \<in> set ?lss. \<forall>p. sorted_wrt (<) (map s_id (rev (filter
      (\<lambda>s. priority_of s = p \<and> \<not> s_suspended s) l)))"
  proof (intro ballI allI)
    fix l p assume "l \<in> set ?lss"
    then have "registry_order l" using assms(3) by blast
    then show "sorted_wrt (<) (map s_id (rev (filter
      (\<lambda>s. priority_of s = p \<and> \<not> s_suspended s) l)))"
      by (rule registry_order_group)
  qed
  have g: "\<exists>r. fst (hierarchicalTopicDispatcher state topic d options) = Inr r
      \<and> (\<forall>events. \<exists>rest. ?L = map fst (r_invoked (settle_all options r events)) @ rest)
      \<and> (to_number (opt options ''semaphor'') = PInf \<longrightarrow> map fst (r_invoked r) = ?L)"
    by (rule exI [of _ r]) (rule conjI [OF r conjI [OF a b]])
  show ?thesis
    unfolding Let_def by (rule conjI [OF g conjI [OF c conjI [OF e f]]])
qed

lemma binaryIndexBy_empty: "binaryIndexBy getValue v [] = 0"
  by (simp add: binaryIndexBy_def binaryIndexBy_loop.simps)

lemma binaryIndexBy_single:
  "binaryIndexBy getValue v [x] = (if getValue x < v then 1 else 0)"
  by (simp add: binaryIndexBy_def binaryIndexBy_loop.simps [of getValue v "[x]" 0 "Suc 0"]
      binaryIndexBy_loop.simps [of getValue v "[x]" 0 0]
      binaryIndexBy_loop.simps [of getValue v "[x]" "Suc 0" "Suc 0"] Let_def)

lemma findLineage_leaf:
  "findLineage getTopic isAncestorTopic topic (Some (Node t ss [] ps)) =
     (if isAncestorTopic topic (Node t ss [] ps) then [[]] else [])"
  by (subst findLineage.simps)
    (simp add: binaryIndexBy_empty nth_opt_def Let_def findLineage.simps(1))

lemma findLineage_lineage_tree:
  "findLineage getTopic isAncestorTopic ''a.b'' (Some lineage_tree) = [[], [0], [0, 0]]"
proof -
  let ?ab = "Node ''a.b'' [sub_ab] [] []"
  let ?a = "Node ''a'' [sub_a] [?ab] []"
  have 1: "findLineage getTopic isAncestorTopic ''a.b'' (Some ?ab) = [[]]"
    by (simp add: findLineage_leaf isAncestorTopic_def getTopic_def)
  have 2: "findLineage getTopic isAncestorTopic ''a.b'' (Some ?a) = [[], [0]]"
    by (subst findLineage.simps)
      (simp add: 1 isAncestorTopic_def getTopic_def startsWith_def binaryIndexBy_single
        nth_opt_def Let_def)
  have l: "getTopic ?a < ''a.b''" by (simp add: getTopic_def)
  show ?thesis
    unfolding lineage_tree_def
    by (subst findLineage.simps)
      (simp add: 2 l isAncestorTopic_def binaryIndexBy_single nth_opt_def Let_def,
       simp add: getTopic_def)
qed

lemma lineage_subscriptions_lineage_state:
  "lineage_subscriptions lineage_state ''a.b'' = [[sub_root], [sub_a], [sub_ab]]"
  unfolding lineage_subscriptions_def
  by (simp add: lineage_state_def findLineage_lineage_tree)
    (simp add: lineage_tree_def getSubscriptions_def)

lemma registry_order_single:
  "s_priority s = Fin r \<Longrightarrow> registry_order [s]"
  by (simp add: registry_order_def priority_of_def)

lemma lineage_state_hyps:
  "n_topic (b_topics lineage_state) = []"
  "\<not> to_boolean (opt (b_options lineage_state) ''preventBubble'')"
  "to_number (opt (b_options lineage_state) ''semaphor'') = PInf"
  by (simp_all add: lineage_state_def lineage_tree_def create_def opt_def)

lemma lineage_state_registry:
  "\<forall>l \<in> set (lineage_subscriptions lineage_state ''a.b''). registry_order l"
  unfolding lineage_subscriptions_lineage_state
  by (simp add: registry_order_single sub_root_def sub_a_def sub_ab_def)

lemma lineage_state_order:
  "rev (filter (\<lambda>s. \<not> s_suspended s) (sort_key priority_of
     (concat (lineage_subscriptions lineage_state ''a.b'')))) = [sub_root, sub_ab, sub_a]"
  by (simp add: lineage_subscriptions_lineage_state priority_of_def sub_root_def sub_a_def
      sub_ab_def)

text \<open>
  C6 as stated fails on ties across the lineage. \<open>sub_a\<close> (on \<open>a\<close>) was registered before
  \<open>sub_ab\<close> (on \<open>a.b\<close>) and both have priority \<open>0\<close>; a publish on \<open>a.b\<close> launches
  \<open>sub_ab\<close> first.
\<close>

theorem launch_order_tie_counterexample:
  "map s_id (launched (hierarchicalTopicDispatcher lineage_state ''a.b'' JNull
       (b_options lineage_state))) =
     [- 9007199254740990, - 9007199254740991, - 9007199254740992]
   \<and> map s_priority (launched (hierarchicalTopicDispatcher lineage_state ''a.b'' JNull
       (b_options lineage_state))) = [Fin 5, Fin 0, Fin 0]"
proof -
  obtain r where r: "fst (hierarchicalTopicDispatcher lineage_state ''a.b'' JNull
        (b_options lineage_state)) = Inr r"
    and i: "launch_inv (sort_key priority_of (concat (lineage_subscriptions lineage_state ''a.b'')))
        ''a.b'' JNull r"
    and p: "r_i r = - 1"
    using dispatch_launch_inv [OF lineage_state_hyps(1,2) lineage_state_registry, of JNull] lineage_state_hyps(3)
    by blast
  have "launched (hierarchicalTopicDispatcher lineage_state ''a.b'' JNull
       (b_options lineage_state)) = [sub_root, sub_ab, sub_a]"
    using launch_inv_all [OF i p] r by (simp add: launched_def lineage_state_order)
  then show ?thesis by (simp add: sub_root_def sub_a_def sub_ab_def)
qed

theorem publish_launch_order_witness:
  "launched (hierarchicalTopicDispatcher lineage_state ''a.b'' JNull (b_options lineage_state)) =
     [sub_root, sub_ab, sub_a]"
proof -
  note t = publish_launch_order [OF lineage_state_hyps(1,2) lineage_state_registry, of JNull,
      unfolded Let_def lineage_state_order]
  from t [THEN conjunct1] obtain r where
    a: "fst (hierarchicalTopicDispatcher lineage_state ''a.b'' JNull (b_options lineage_state)) = Inr r"
    and b: "to_number (opt (b_options lineage_state) ''semaphor'') = PInf \<longrightarrow>
      map fst (r_invoked r) = [sub_root, sub_ab, sub_a]"
    by (elim exE conjE) (rule that)
  have "\<exists>r. fst (hierarchicalTopicDispatcher lineage_state ''a.b'' JNull
        (b_options lineage_state)) = Inr r
      \<and> map fst (r_invoked r) = [sub_root, sub_ab, sub_a]"
    using a b lineage_state_hyps(3) by (intro exI [of _ r]) simp
  then show ?thesis by (auto simp: launched_def)
qed

section \<open>The order of a subscription list\<close>

text \<open>
  \<open>binaryIndexBy\<close> on a sorted array returns the lower bound: the elements in front of
  the index are smaller than the value, the elements from the index on are not.
\<close>

lemma binaryIndexBy_loop_lower_bound:
  fixes k :: "'a \<Rightarrow> 'b::linorder"
  shows "sorted (map k arr) \<Longrightarrow> \<forall>x \<in> set arr. (getValue x < v) = (k x < kv)
    \<Longrightarrow> low \<le> high \<Longrightarrow> high \<le> length arr
    \<Longrightarrow> \<forall>i<low. k (arr ! i) < kv
    \<Longrightarrow> \<forall>i. high \<le> i \<and> i < length arr \<longrightarrow> \<not> k (arr ! i) < kv
    \<Longrightarrow> binaryIndexBy_loop getValue v arr low high \<le> length arr
        \<and> (\<forall>i < binaryIndexBy_loop getValue v arr low high. k (arr ! i) < kv)
        \<and> (\<forall>i. binaryIndexBy_loop getValue v arr low high \<le> i \<and> i < length arr
              \<longrightarrow> \<not> k (arr ! i) < kv)"
proof (induction getValue v arr low high rule: binaryIndexBy_loop.induct)
  case (1 getValue v arr low high)
  note so = "1.prems"(1) and gv = "1.prems"(2) and lh = "1.prems"(3) and hl = "1.prems"(4)
    and lo = "1.prems"(5) and hi = "1.prems"(6)
  show ?case
  proof (cases "low < high")
    case False
    then have e: "binaryIndexBy_loop getValue v arr low high = high"
      by (subst binaryIndexBy_loop.simps) simp
    have "low = high" using False lh by simp
    then show ?thesis unfolding e using hl lo hi by simp
  next
    case True
    let ?mid = "(low + high) div 2"
    have m: "low \<le> ?mid" "?mid < high" "?mid < length arr" using True hl by auto
    have g: "(getValue (arr ! ?mid) < v) = (k (arr ! ?mid) < kv)"
      using gv m(3) by simp
    show ?thesis
    proof (cases "getValue (arr ! ?mid) < v")
      case lt: True
      then have e: "binaryIndexBy_loop getValue v arr low high =
          binaryIndexBy_loop getValue v arr (?mid + 1) high"
        using True by (subst binaryIndexBy_loop.simps) (simp add: Let_def)
      have b: "\<forall>i < ?mid + 1. k (arr ! i) < kv"
      proof (intro allI impI)
        fix i assume "i < ?mid + 1"
        then have "i \<le> ?mid" by simp
        then have "k (arr ! i) \<le> k (arr ! ?mid)"
          using so m(3) by (simp add: sorted_iff_nth_mono)
        then show "k (arr ! i) < kv" using lt g by simp
      qed
      show ?thesis
        unfolding e
        using "1.IH"(1) [OF True refl refl lt so gv _ hl b hi] m by simp
    next
      case ge: False
      then have e: "binaryIndexBy_loop getValue v arr low high =
          binaryIndexBy_loop getValue v arr low ?mid"
        using True by (subst binaryIndexBy_loop.simps) (simp add: Let_def)
      have b: "\<forall>i. ?mid \<le> i \<and> i < length arr \<longrightarrow> \<not> k (arr ! i) < kv"
      proof (intro allI impI)
        fix i assume "?mid \<le> i \<and> i < length arr"
        then have "k (arr ! ?mid) \<le> k (arr ! i)"
          using so by (simp add: sorted_iff_nth_mono)
        then show "\<not> k (arr ! i) < kv" using ge g by simp
      qed
      show ?thesis
        unfolding e
        using "1.IH"(2) [OF True refl refl ge so gv m(1) _ lo b] m by simp
    qed
  qed
qed

lemma binaryIndexBy_lower_bound:
  fixes k :: "'a \<Rightarrow> 'b::linorder"
  assumes "sorted (map k arr)"
    and "\<forall>x \<in> set arr. (getValue x < v) = (k x < kv)"
  shows "binaryIndexBy getValue v arr \<le> length arr
    \<and> (\<forall>x \<in> set (take (binaryIndexBy getValue v arr) arr). k x < kv)
    \<and> (\<forall>x \<in> set (drop (binaryIndexBy getValue v arr) arr). \<not> k x < kv)"
proof -
  let ?n = "binaryIndexBy getValue v arr"
  have b: "?n \<le> length arr \<and> (\<forall>i < ?n. k (arr ! i) < kv)
      \<and> (\<forall>i. ?n \<le> i \<and> i < length arr \<longrightarrow> \<not> k (arr ! i) < kv)"
    unfolding binaryIndexBy_def
    by (rule binaryIndexBy_loop_lower_bound [OF assms]) auto
  have 1: "\<forall>x \<in> set (take ?n arr). k x < kv"
  proof
    fix x assume "x \<in> set (take ?n arr)"
    then obtain i where "i < ?n" "i < length arr" "x = arr ! i"
      by (auto simp: in_set_conv_nth)
    then show "k x < kv" using b by simp
  qed
  have 2: "\<forall>x \<in> set (drop ?n arr). \<not> k x < kv"
  proof
    fix x assume "x \<in> set (drop ?n arr)"
    then obtain i where "i < length arr - ?n" "x = arr ! (?n + i)"
      by (auto simp: in_set_conv_nth)
    then show "\<not> k x < kv" using b by simp
  qed
  show ?thesis using b 1 2 by simp
qed

text \<open>
  \<open>insert\<close> by priority keeps the order of a subscription list, for a new subscription
  with a finite priority and an identifier above the identifiers of the list (the
  counter of the broker grows with every subscription).
\<close>

lemma insert_js_registry_order:
  assumes "registry_order l"
    and "s_priority item = Fin (priority_of item)"
    and "\<forall>s \<in> set l. s_id s < s_id item"
  shows "registry_order (insert_js getPriority item l)"
proof -
  let ?R = "\<lambda>a b. priority_of a < priority_of b
      \<or> (priority_of a = priority_of b \<and> s_id b < s_id a)"
  let ?n = "binaryIndexBy getPriority (getPriority item) l"
  have f: "list_all (\<lambda>s. s_priority s = Fin (priority_of s)) l"
    and s: "sorted_wrt ?R l"
    using assms(1) by (simp_all add: registry_order_def)
  have so: "sorted (map priority_of l)" using assms(1) by (rule registry_order_sorted)
  have c: "\<forall>x \<in> set l. (getPriority x < getPriority item) = (priority_of x < priority_of item)"
    using f assms(2) by (simp add: list_all_iff getPriority_def less_jsnum_def)
  note b = binaryIndexBy_lower_bound [OF so c]
  have l: "take ?n l @ drop ?n l = l" by simp
  have sp: "sorted_wrt ?R (take ?n l @ drop ?n l)" using s by simp
  have "sorted_wrt ?R (take ?n l @ item # drop ?n l)"
    unfolding sorted_wrt_append sorted_wrt.simps
  proof (intro conjI ballI)
    show "sorted_wrt ?R (take ?n l)" using sp unfolding sorted_wrt_append by simp
    show "sorted_wrt ?R (drop ?n l)" using sp unfolding sorted_wrt_append by simp
  next
    fix x assume x: "x \<in> set (drop ?n l)"
    then have "x \<in> set l" by (rule in_set_dropD)
    then have "s_id x < s_id item" using assms(3) by simp
    moreover have "\<not> priority_of x < priority_of item" using b x by simp
    ultimately show "?R item x" by auto
  next
    fix x y assume x: "x \<in> set (take ?n l)" and y: "y \<in> set (item # drop ?n l)"
    show "?R x y"
    proof (cases "y = item")
      case True
      then show ?thesis using b x by simp
    next
      case False
      then have "y \<in> set (drop ?n l)" using y by simp
      then show ?thesis using sp x unfolding sorted_wrt_append by simp
    qed
  qed
  moreover have "list_all (\<lambda>s. s_priority s = Fin (priority_of s)) (take ?n l @ item # drop ?n l)"
    using f assms(2) by (auto simp: list_all_iff dest: in_set_takeD in_set_dropD)
  ultimately show ?thesis
    by (simp add: registry_order_def insert_js_def splice_in_def)
qed

section \<open>The order of the persisted messages\<close>

lemma persisted_below_sorted: "persisted_below n tree \<Longrightarrow> persisted_sorted tree"
  by (induction n tree rule: persisted_below.induct) (auto simp: list_all_iff)

lemma persisted_below_mono: "persisted_below n tree \<Longrightarrow> n \<le> n' \<Longrightarrow> persisted_below n' tree"
  by (induction n tree rule: persisted_below.induct) (fastforce simp: list_all_iff)

lemma persisted_below_updateAt:
  assumes "\<And>t. persisted_below n t \<Longrightarrow> persisted_below n (f t)"
  shows "persisted_below n tree \<Longrightarrow> persisted_below n (updateAt path f tree)"
proof (induction path arbitrary: tree)
  case Nil
  then show ?case using assms by simp
next
  case (Cons c path)
  obtain tp ss cs ps where t: "tree = Node tp ss cs ps" by (cases tree)
  show ?case
  proof (cases "c < length cs")
    case True
    have "persisted_below n (cs ! c)" using Cons.prems t True by (simp add: list_all_length)
    then have "persisted_below n (updateAt path f (cs ! c))" by (rule Cons.IH)
    then show ?thesis
      using Cons.prems t True by (auto simp: list_all_iff dest!: set_update_subset_insert [THEN subsetD])
  next
    case False
    then show ?thesis using Cons.prems t by simp
  qed
qed

lemma persisted_below_addChild:
  assumes "persisted_below n (fst tree)" and "persisted_below n newChild"
  shows "persisted_below n (fst (addChild getValue newChild tree))"
proof -
  have "persisted_below n (set_children (splice_in i newChild (n_children t)) t)"
    if "persisted_below n t" for t i
    using that assms(2)
    by (cases t) (auto simp: set_children_def splice_in_def list_all_iff dest: in_set_takeD in_set_dropD)
  then show ?thesis
    using assms(1) by (simp add: addChild_def Let_def persisted_below_updateAt)
qed

lemma persisted_below_addFamilyLine:
  assumes "list_all (persisted_below n) line"
  shows "persisted_below n (fst tree) \<Longrightarrow>
    persisted_below n (fst (addFamilyLine addChildTopic line tree))"
  using assms
proof (induction line arbitrary: tree)
  case Nil
  then show ?case by (simp add: addFamilyLine_def reduce_def)
next
  case (Cons x line)
  have "persisted_below n (fst (addChildTopic tree x))"
    using Cons.prems by (simp add: addChildTopic_def persisted_below_addChild)
  from Cons.IH [OF this] Cons.prems(2) show ?case
    by (simp add: addFamilyLine_def reduce_def)
qed

lemma persisted_below_addTopicLine:
  "persisted_below n (fst ancestor) \<Longrightarrow> persisted_below n (fst (addTopicLine topic ancestor))"
  unfolding addTopicLine_def Let_def
  by (rule persisted_below_addFamilyLine)
    (simp_all add: list_all_iff createNode_def)

lemma persisted_below_create: "persisted_below (b_id create) (b_topics create)"
  by (simp add: create_def createNode_def)

lemma persisted_below_append:
  assumes "persisted_below (n + 1) t"
  shows "persisted_below (n + 1)
    (set_persisted (n_persisted t @ [\<lparr>m_topic = topic, m_data = d, m_order = n\<rparr>]) t)"
  using assms
  by (cases t) (auto simp: set_persisted_def sorted_append list_all_iff)

lemma persisted_below_persist:
  assumes "persisted_below n tree"
  shows "persisted_below (n + 1)
    (updateAt (snd (addTopicLine topic (tree, ref)))
       (\<lambda>t. set_persisted (n_persisted t @ [\<lparr>m_topic = topic, m_data = d, m_order = n\<rparr>]) t)
       (fst (addTopicLine topic (tree, ref))))"
proof -
  have "persisted_below (n + 1) tree" using assms by (rule persisted_below_mono) simp
  then have "persisted_below (n + 1) (fst (addTopicLine topic (tree, ref)))"
    by (simp add: persisted_below_addTopicLine)
  then show ?thesis
    by (rule persisted_below_updateAt [rotated]) (rule persisted_below_append)
qed

lemma hierarchicalTopicDispatcher_persisted_below:
  assumes "persisted_below (b_id state) (b_topics state)"
  shows "persisted_below (b_id (snd (hierarchicalTopicDispatcher state topic d options)))
    (b_topics (snd (hierarchicalTopicDispatcher state topic d options)))"
proof -
  have 1: "persisted_below (b_id state + 1) (b_topics state)"
    using assms by (rule persisted_below_mono) simp
  note 2 = persisted_below_persist [OF assms]
  show ?thesis
    unfolding hierarchicalTopicDispatcher_def Let_def
    using assms 1 2 by (simp split: sum.split prod.split option.split)
qed

lemma publish_state:
  "fst (snd (publish state topicArg d optionsArg)) = state
   \<or> (\<exists>topic options.
        fst (snd (publish state topicArg d optionsArg)) =
          snd (hierarchicalTopicDispatcher state topic d options))"
proof (cases "\<exists>topic. topicArg = JStr topic
    \<and> to_boolean (opt (merge (b_options state) optionsArg) ''sync'')")
  case True
  then obtain topic where t: "topicArg = JStr topic"
    and s: "to_boolean (opt (merge (b_options state) optionsArg) ''sync'')" by blast
  obtain res st where e:
    "hierarchicalTopicDispatcher state topic d (merge (b_options state) optionsArg) = (res, st)"
    by (cases "hierarchicalTopicDispatcher state topic d (merge (b_options state) optionsArg)")
  have "fst (snd (publish state topicArg d optionsArg)) = st"
    unfolding publish_def Let_def t assert_string using s e by (cases res) simp_all
  then show ?thesis using e by (metis snd_conv)
next
  case False
  then have "fst (snd (publish state topicArg d optionsArg)) = state"
    unfolding publish_def Let_def async_def
    by (cases topicArg) (simp_all split: option.split)
  then show ?thesis by simp
qed

lemma publish_persisted_below:
  assumes "persisted_below (b_id state) (b_topics state)"
  shows "persisted_below (b_id (fst (snd (publish state topicArg d optionsArg))))
    (b_topics (fst (snd (publish state topicArg d optionsArg))))"
  using publish_state [of state topicArg d optionsArg] assms
    hierarchicalTopicDispatcher_persisted_below [OF assms]
  by auto

lemma subscribe_persisted_below:
  assumes "persisted_below (b_id state) (b_topics state)"
  shows "persisted_below (b_id (fst (snd (subscribe state topicArg subscription optionsArg ctx))))
    (b_topics (fst (snd (subscribe state topicArg subscription optionsArg ctx))))"
proof (cases "\<exists>topic. topicArg = JStr topic")
  case True
  then obtain topic where t: "topicArg = JStr topic" by blast
  let ?anc = "addTopicLine topic (b_topics state, ancestorTopicSearch topic (b_topics state))"
  have "persisted_below (b_id state + 1) (b_topics state)"
    using assms by (rule persisted_below_mono) simp
  then have "persisted_below (b_id state + 1) (fst ?anc)"
    by (simp add: persisted_below_addTopicLine)
  then have "persisted_below (b_id state + 1) (updateAt (snd ?anc)
      (\<lambda>t. set_subscriptions (insert_js getPriority
         (createSubscription (b_id state) subscription (merge (b_options state) optionsArg) ctx)
         (n_subscriptions t)) t) (fst ?anc))"
  proof (rule persisted_below_updateAt [rotated])
    fix t assume "persisted_below (b_id state + 1) t"
    then show "persisted_below (b_id state + 1) (set_subscriptions ss t)" for ss
      by (cases t) (simp add: set_subscriptions_def)
  qed
  then show ?thesis
    unfolding t
    by (simp add: subscribe_string [OF persisted_below_sorted [OF assms]] Let_def
        subscription_ref_def split: prod.split option.split)
next
  case False
  then have "fst (snd (subscribe state topicArg subscription optionsArg ctx)) = state"
    unfolding subscribe_def by (cases topicArg) (simp_all split: option.split)
  then show ?thesis using assms by simp
qed

section \<open>The example brokers\<close>

lemma registry_order_Nil: "registry_order []"
  by (simp add: registry_order_def)

text \<open>A synchronous persisted publish on a lineage without subscriptions.\<close>

lemma publish_persist_no_subscription:
  assumes "n_topic (b_topics state) = []"
    and "\<forall>l \<in> set (lineage_subscriptions state topic). l = []"
    and "to_boolean (opt (merge (b_options state) optionsArg) ''sync'')"
    and "to_boolean (opt (merge (b_options state) optionsArg) ''persist'')"
    and "\<not> to_boolean (opt (merge (b_options state) optionsArg) ''preventBubble'')"
  shows "fst (snd (publish state (JStr topic) d optionsArg)) =
    (let added = addTopicLine topic (b_topics state,
           last (findLineage getTopic isAncestorTopic topic (Some (b_topics state))))
     in state\<lparr>b_topics := updateAt (snd added)
            (\<lambda>t. set_persisted
               (n_persisted t @ [\<lparr>m_topic = topic, m_data = d, m_order = b_id state\<rparr>]) t)
            (fst added),
          b_id := b_id state + 1\<rparr>)"
proof -
  let ?o = "merge (b_options state) optionsArg"
  let ?lineage = "findLineage getTopic isAncestorTopic topic (Some (b_topics state))"
  have ne: "?lineage \<noteq> []" using assms(1) by (rule findLineage_root)
  have tn: "(if ?lineage = [] then None else Some (last ?lineage)) = Some (last ?lineage)"
    using ne by simp
  have ro: "\<forall>l \<in> set (lineage_subscriptions state topic). registry_order l"
    using assms(2) registry_order_Nil by auto
  have c: "concat (lineage_subscriptions state topic) = []" using assms(2) by simp
  have m: "mergeBy getFingerArrayPriority
      (map (\<lambda>ref. getSubscriptions (nodeAt (b_topics state) ref)) ?lineage) = Inr (map Item [])"
    using mergeBy_priority [OF ro] unfolding c by (simp add: lineage_subscriptions_def)
  obtain r0 where d: "subscriptionDispatcher topic d ?o [] = (None, r0)"
    using subscriptionDispatcher_launch_inv [of topic d ?o "[]"]
    by (cases "subscriptionDispatcher topic d ?o []") auto
  have h: "snd (hierarchicalTopicDispatcher state topic d ?o) =
    (let added = addTopicLine topic (b_topics state, last ?lineage)
     in state\<lparr>b_topics := updateAt (snd added)
            (\<lambda>t. set_persisted
               (n_persisted t @ [\<lparr>m_topic = topic, m_data = d, m_order = b_id state\<rparr>]) t)
            (fst added),
          b_id := b_id state + 1\<rparr>)"
    unfolding hierarchicalTopicDispatcher_def Let_def m tn
    using assms(4,5) by (simp add: d)
  obtain res st where e: "hierarchicalTopicDispatcher state topic d ?o = (res, st)"
    by (cases "hierarchicalTopicDispatcher state topic d ?o")
  have "fst (snd (publish state (JStr topic) d optionsArg)) = st"
    unfolding publish_def Let_def assert_string
    using assms(3) e by (cases res) simp_all
  then show ?thesis using h e by simp
qed

lemma sync_persist_options:
  "b_options state = b_options create \<Longrightarrow>
     to_boolean (opt (merge (b_options state) sync_persist) ''sync'')
     \<and> to_boolean (opt (merge (b_options state) sync_persist) ''persist'')
     \<and> \<not> to_boolean (opt (merge (b_options state) sync_persist) ''preventBubble'')"
  by (simp add: merge_def opt_def sync_persist_def create_def)

lemma addTopicLine_root_x_y:
  "addTopicLine ''x.y'' (Node [] [] [] [], []) =
     (Node [] [] [Node ''x'' [] [Node ''x.y'' [] [] []] []] [], [0, 0])"
proof -
  have r: "replace_leading_dot ''x.y'' = ''x.y''" by (simp add: replace_leading_dot_def)
  have s: "split CHR ''.'' ''x.y'' = [''x'', ''y'']" by simp
  have p: "reduce appendPrefixedTopic [[]] [''x'', ''y''] = [[], ''x'', ''x.y'']"
    by (simp add: reduce_def appendPrefixedTopic_def)
  have 1: "addChildTopic (Node [] [] [] [], []) (Node ''x'' [] [] []) =
      (Node [] [] [Node ''x'' [] [] []] [], [0])"
    by (simp add: addChildTopic_def addChild_def binaryIndexBy_empty splice_in_def set_children_def)
  have 2: "addChildTopic (Node [] [] [Node ''x'' [] [] []] [], [0]) (Node ''x.y'' [] [] []) =
      (Node [] [] [Node ''x'' [] [Node ''x.y'' [] [] []] []] [], [0, 0])"
    by (simp add: addChildTopic_def addChild_def binaryIndexBy_empty splice_in_def set_children_def)
  have n: "n_topic (nodeAt (fst (Node [] [] [] [], [])) (snd (Node [] [] [] [], []))) = []"
    by simp
  show ?thesis
    unfolding addTopicLine_def Let_def n
    by (simp add: r s p addFamilyLine_def createNode_def del: split.simps)
      (simp add: reduce_def 1 2)
qed

lemma findLineage_replay_tree1:
  "findLineage getTopic isAncestorTopic ''x'' (Some replay_tree1) = [[], [0]]"
  by code_simp

lemma findLineage_replay_tree2:
  "findLineage getTopic isAncestorTopic ''x'' (Some replay_tree2) = [[], [0]]"
  by code_simp

lemma create_fields:
  "b_topics create = Node [] [] [] []" "b_id create = - 9007199254740992"
  by (simp_all add: create_def createNode_def)

lemma replay_publish_1:
  "fst (snd (publish create (JStr ''x.y'') (JNum (Fin 1)) sync_persist)) =
     create\<lparr>b_topics := replay_tree1, b_id := - 9007199254740991\<rparr>"
proof -
  have l: "\<forall>l \<in> set (lineage_subscriptions create ''x.y''). l = []"
    by (simp add: lineage_subscriptions_def findLineage_create)
      (simp add: create_fields getSubscriptions_def)
  have "n_topic (b_topics create) = []" by (simp add: create_fields)
  from publish_persist_no_subscription [OF this l] sync_persist_options [of create]
  show ?thesis
    by (simp add: findLineage_create)
      (simp add: create_fields addTopicLine_root_x_y set_persisted_def replay_tree1_def)
qed

lemma replay_publish_2:
  "fst (snd (publish (create\<lparr>b_topics := replay_tree1, b_id := - 9007199254740991\<rparr>)
      (JStr ''x'') (JNum (Fin 2)) sync_persist)) =
     create\<lparr>b_topics := replay_tree2, b_id := - 9007199254740990\<rparr>"
proof -
  let ?s = "create\<lparr>b_topics := replay_tree1, b_id := - 9007199254740991\<rparr>"
  have l: "\<forall>l \<in> set (lineage_subscriptions ?s ''x''). l = []"
    by (simp add: lineage_subscriptions_def findLineage_replay_tree1)
      (simp add: replay_tree1_def getSubscriptions_def)
  have a: "addTopicLine ''x'' (replay_tree1, [0]) = (replay_tree1, [0])"
    by (rule addTopicLine_same) (simp add: replay_tree1_def)
  have "n_topic (b_topics ?s) = []" by (simp add: replay_tree1_def)
  from publish_persist_no_subscription [OF this l] sync_persist_options [of ?s]
  show ?thesis
    by (simp add: findLineage_replay_tree1 a)
      (simp add: set_persisted_def replay_tree1_def replay_tree2_def)
qed

lemma replay_publish_3:
  "fst (snd (publish (create\<lparr>b_topics := replay_tree2, b_id := - 9007199254740990\<rparr>)
      (JStr ''x'') (JNum (Fin 3)) sync_persist)) = replay_state"
proof -
  let ?s = "create\<lparr>b_topics := replay_tree2, b_id := - 9007199254740990\<rparr>"
  have l: "\<forall>l \<in> set (lineage_subscriptions ?s ''x''). l = []"
    by (simp add: lineage_subscriptions_def findLineage_replay_tree2)
      (simp add: replay_tree2_def getSubscriptions_def)
  have a: "addTopicLine ''x'' (replay_tree2, [0]) = (replay_tree2, [0])"
    by (rule addTopicLine_same) (simp add: replay_tree2_def)
  have "n_topic (b_topics ?s) = []" by (simp add: replay_tree2_def)
  from publish_persist_no_subscription [OF this l] sync_persist_options [of ?s]
  show ?thesis
    by (simp add: findLineage_replay_tree2 a)
      (simp add: set_persisted_def replay_tree2_def replay_tree_def replay_state_def)
qed

text \<open>
  \<open>replay_state\<close> is the broker after
  \<open>publish('x.y', 1, {sync: true, persist: true})\<close>,
  \<open>publish('x', 2, {sync: true, persist: true})\<close> and
  \<open>publish('x', 3, {sync: true, persist: true})\<close> on a fresh broker.
\<close>

lemma replay_state_reachable:
  "fst (snd (publish
     (fst (snd (publish
        (fst (snd (publish create (JStr ''x.y'') (JNum (Fin 1)) sync_persist)))
        (JStr ''x'') (JNum (Fin 2)) sync_persist)))
     (JStr ''x'') (JNum (Fin 3)) sync_persist)) = replay_state"
  by (simp only: replay_publish_1 replay_publish_2 replay_publish_3)

text \<open>The broker after a call of \<open>subscribe\<close> with a topic that is a string.\<close>

lemma subscribe_state:
  assumes "persisted_sorted (b_topics state)"
  shows "fst (snd (subscribe state (JStr topic) subscription optionsArg ctx)) =
    state\<lparr>b_topics := updateAt (subscription_ref state topic)
        (\<lambda>t. set_subscriptions
           (insert_js getPriority
              (createSubscription (b_id state) subscription (merge (b_options state) optionsArg) ctx)
              (n_subscriptions t)) t)
        (fst (addTopicLine topic (b_topics state, ancestorTopicSearch topic (b_topics state)))),
      b_id := b_id state + 1\<rparr>"
  unfolding subscribe_string [OF assms] Let_def
  by (simp split: prod.splits option.splits)

lemma insert_js_empty: "insert_js getValue item [] = [item]"
  by (simp add: insert_js_def binaryIndexBy_empty splice_in_def)

lemma addTopicLine_root_a:
  "addTopicLine ''a'' (Node [] [] [] [], []) = (Node [] [] [Node ''a'' [] [] []] [], [0])"
proof -
  have r: "replace_leading_dot ''a'' = ''a''" by (simp add: replace_leading_dot_def)
  have s: "split CHR ''.'' ''a'' = [''a'']" by simp
  have p: "reduce appendPrefixedTopic [[]] [''a''] = [[], ''a'']"
    by (simp add: reduce_def appendPrefixedTopic_def)
  have 1: "addChildTopic (Node [] [] [] [], []) (Node ''a'' [] [] []) =
      (Node [] [] [Node ''a'' [] [] []] [], [0])"
    by (simp add: addChildTopic_def addChild_def binaryIndexBy_empty splice_in_def set_children_def)
  have n: "n_topic (nodeAt (fst (Node [] [] [] [], [])) (snd (Node [] [] [] [], []))) = []"
    by simp
  show ?thesis
    unfolding addTopicLine_def Let_def n
    by (simp add: r s p addFamilyLine_def createNode_def del: split.simps)
      (simp add: reduce_def 1)
qed

lemma addTopicLine_a_b:
  "addTopicLine ''a.b'' (lineage_tree1, [0]) =
     (Node [] [] [Node ''a'' [sub_a] [Node ''a.b'' [] [] []] []] [], [0, 0])"
proof -
  have r: "replace_leading_dot ''.b'' = ''b''" by (simp add: replace_leading_dot_def)
  have s: "split CHR ''.'' ''b'' = [''b'']" by simp
  have p: "reduce appendPrefixedTopic [''a''] [''b''] = [''a'', ''a.b'']"
    by (simp add: reduce_def appendPrefixedTopic_def)
  have 1: "addChildTopic (lineage_tree1, [0]) (Node ''a.b'' [] [] []) =
      (Node [] [] [Node ''a'' [sub_a] [Node ''a.b'' [] [] []] []] [], [0, 0])"
    by (simp add: addChildTopic_def addChild_def binaryIndexBy_empty splice_in_def set_children_def
        lineage_tree1_def)
  have n: "n_topic (nodeAt (fst (lineage_tree1, [0])) (snd (lineage_tree1, [0]))) = ''a''"
    by (simp add: lineage_tree1_def)
  show ?thesis
    unfolding addTopicLine_def Let_def n
    by (simp add: r s p addFamilyLine_def createNode_def del: split.simps)
      (simp add: reduce_def 1)
qed

lemma ancestorTopicSearch_create: "ancestorTopicSearch ''a'' (Node [] [] [] []) = []"
  by code_simp

lemma ancestorTopicSearch_lineage_tree1: "ancestorTopicSearch ''a.b'' lineage_tree1 = [0]"
  by code_simp

lemma ancestorTopicSearch_lineage_tree2: "ancestorTopicSearch '''' lineage_tree2 = []"
  by code_simp

lemma lineage_subscribe_1:
  "fst (snd (subscribe create (JStr ''a'') (SFunction echo) Map.empty JUndefined)) =
     create\<lparr>b_topics := lineage_tree1, b_id := - 9007199254740991\<rparr>"
proof -
  have c: "createSubscription (- 9007199254740992) (SFunction echo)
      (merge (b_options create) Map.empty) JUndefined = sub_a"
    by (simp add: createSubscription_def sub_a_def merge_def opt_def create_def)
  have "persisted_sorted (b_topics create)" by (simp add: create_fields)
  from subscribe_state [OF this] show ?thesis
    by (simp add: subscription_ref_def create_fields ancestorTopicSearch_create
        addTopicLine_root_a c insert_js_empty set_subscriptions_def lineage_tree1_def)
qed

lemma lineage_subscribe_2:
  "fst (snd (subscribe (create\<lparr>b_topics := lineage_tree1, b_id := - 9007199254740991\<rparr>)
       (JStr ''a.b'') (SFunction echo) Map.empty JUndefined)) =
     create\<lparr>b_topics := lineage_tree2, b_id := - 9007199254740990\<rparr>"
proof -
  have c: "createSubscription (- 9007199254740991) (SFunction echo)
      (merge (b_options create) Map.empty) JUndefined = sub_ab"
    by (simp add: createSubscription_def sub_ab_def merge_def opt_def create_def)
  have "persisted_sorted (b_topics (create\<lparr>b_topics := lineage_tree1, b_id := - 9007199254740991\<rparr>))"
    by (simp add: lineage_tree1_def)
  from subscribe_state [OF this] show ?thesis
    by (simp add: subscription_ref_def ancestorTopicSearch_lineage_tree1
        addTopicLine_a_b c insert_js_empty set_subscriptions_def lineage_tree2_def)
qed

lemma lineage_subscribe_3:
  "fst (snd (subscribe (create\<lparr>b_topics := lineage_tree2, b_id := - 9007199254740990\<rparr>)
       (JStr '''') (SFunction echo) priority_five JUndefined)) = lineage_state"
proof -
  have c: "createSubscription (- 9007199254740990) (SFunction echo)
      (merge (b_options create) priority_five) JUndefined = sub_root"
    by (simp add: createSubscription_def sub_root_def merge_def opt_def create_def
        priority_five_def)
  have a: "addTopicLine '''' (lineage_tree2, []) = (lineage_tree2, [])"
    by (rule addTopicLine_same) (simp add: lineage_tree2_def)
  have "persisted_sorted (b_topics (create\<lparr>b_topics := lineage_tree2, b_id := - 9007199254740990\<rparr>))"
    by (simp add: lineage_tree2_def)
  from subscribe_state [OF this] show ?thesis
    by (simp add: subscription_ref_def ancestorTopicSearch_lineage_tree2 a c)
      (simp add: insert_js_empty set_subscriptions_def lineage_tree2_def lineage_tree_def
        lineage_state_def)
qed

text \<open>
  \<open>lineage_state\<close> is the broker after \<open>subscribe('a', echo)\<close>,
  \<open>subscribe('a.b', echo)\<close> and \<open>subscribe('', echo, {priority: 5})\<close> on a fresh
  broker.
\<close>

lemma lineage_state_reachable:
  "fst (snd (subscribe
     (fst (snd (subscribe
        (fst (snd (subscribe create (JStr ''a'') (SFunction echo) Map.empty JUndefined)))
        (JStr ''a.b'') (SFunction echo) Map.empty JUndefined)))
     (JStr '''') (SFunction echo) priority_five JUndefined)) = lineage_state"
  by (simp only: lineage_subscribe_1 lineage_subscribe_2 lineage_subscribe_3)

section \<open>Late subscription beside a sibling topic\<close>

lemma addTopicLine_root_a_b:
  "addTopicLine ''a.b'' (Node [] [] [] [], []) =
     (Node [] [] [Node ''a'' [] [Node ''a.b'' [] [] []] []] [], [0, 0])"
proof -
  have r: "replace_leading_dot ''a.b'' = ''a.b''" by (simp add: replace_leading_dot_def)
  have s: "split CHR ''.'' ''a.b'' = [''a'', ''b'']" by simp
  have p: "reduce appendPrefixedTopic [[]] [''a'', ''b''] = [[], ''a'', ''a.b'']"
    by (simp add: reduce_def appendPrefixedTopic_def)
  have 1: "addChildTopic (Node [] [] [] [], []) (Node ''a'' [] [] []) =
      (Node [] [] [Node ''a'' [] [] []] [], [0])"
    by (simp add: addChildTopic_def addChild_def binaryIndexBy_empty splice_in_def set_children_def)
  have 2: "addChildTopic (Node [] [] [Node ''a'' [] [] []] [], [0]) (Node ''a.b'' [] [] []) =
      (Node [] [] [Node ''a'' [] [Node ''a.b'' [] [] []] []] [], [0, 0])"
    by (simp add: addChildTopic_def addChild_def binaryIndexBy_empty splice_in_def set_children_def)
  have n: "n_topic (nodeAt (fst (Node [] [] [] [], [])) (snd (Node [] [] [] [], []))) = []"
    by simp
  show ?thesis
    unfolding addTopicLine_def Let_def n
    by (simp add: r s p addFamilyLine_def createNode_def del: split.simps)
      (simp add: reduce_def 1 2)
qed

lemma sibling_publish_1:
  "fst (snd (publish create (JStr ''a.b'') (JNum (Fin 1)) sync_persist)) =
     create\<lparr>b_topics := sibling_tree1, b_id := - 9007199254740991\<rparr>"
proof -
  have l: "\<forall>l \<in> set (lineage_subscriptions create ''a.b''). l = []"
    by (simp add: lineage_subscriptions_def findLineage_create)
      (simp add: create_fields getSubscriptions_def)
  have "n_topic (b_topics create) = []" by (simp add: create_fields)
  from publish_persist_no_subscription [OF this l] sync_persist_options [of create]
  show ?thesis
    by (simp add: findLineage_create)
      (simp add: create_fields addTopicLine_root_a_b set_persisted_def sibling_tree1_def)
qed

text \<open>
  The lineage of \<open>a-b\<close> in this tree is the root alone, and its node becomes the second
  child of the root.
\<close>

lemma findLineage_sibling_tree1:
  "findLineage getTopic isAncestorTopic ''a-b'' (Some sibling_tree1) = [[]]"
  by code_simp

lemma binaryIndexBy_sibling_tree1:
  "binaryIndexBy getTopic ''a-b'' (n_children sibling_tree1) = 1"
  by code_simp

lemma addTopicLine_a_dash_b:
  "addTopicLine ''a-b'' (sibling_tree1, []) =
     (Node [] []
       [Node ''a'' []
          [Node ''a.b'' [] []
             [\<lparr>m_topic = ''a.b'', m_data = JNum (Fin 1), m_order = - 9007199254740992\<rparr>]]
          [],
        Node ''a-b'' [] [] []]
       [], [1])"
proof -
  have r: "replace_leading_dot ''a-b'' = ''a-b''" by (simp add: replace_leading_dot_def)
  have s: "split CHR ''.'' ''a-b'' = [''a-b'']" by simp
  have p: "reduce appendPrefixedTopic [[]] [''a-b''] = [[], ''a-b'']"
    by (simp add: reduce_def appendPrefixedTopic_def)
  have g: "getTopic (Node ''a-b'' [] [] []) = ''a-b''" by (simp add: getTopic_def)
  have 1: "addChildTopic (sibling_tree1, []) (Node ''a-b'' [] [] []) =
      (Node [] []
       [Node ''a'' []
          [Node ''a.b'' [] []
             [\<lparr>m_topic = ''a.b'', m_data = JNum (Fin 1), m_order = - 9007199254740992\<rparr>]]
          [],
        Node ''a-b'' [] [] []]
       [], [1])"
    unfolding addChildTopic_def addChild_def Let_def fst_conv snd_conv nodeAt.simps g
      binaryIndexBy_sibling_tree1
    by (simp add: splice_in_def set_children_def sibling_tree1_def)
  have n: "n_topic (nodeAt (fst (sibling_tree1, [])) (snd (sibling_tree1, []))) = []"
    by (simp add: sibling_tree1_def)
  show ?thesis
    unfolding addTopicLine_def Let_def n
    by (simp add: r s p addFamilyLine_def createNode_def del: split.simps)
      (simp add: reduce_def 1)
qed

lemma sibling_publish_2:
  "fst (snd (publish (create\<lparr>b_topics := sibling_tree1, b_id := - 9007199254740991\<rparr>)
      (JStr ''a-b'') (JNum (Fin 2)) sync_persist)) = sibling_state"
proof -
  let ?s = "create\<lparr>b_topics := sibling_tree1, b_id := - 9007199254740991\<rparr>"
  have l: "\<forall>l \<in> set (lineage_subscriptions ?s ''a-b''). l = []"
    by (simp add: lineage_subscriptions_def findLineage_sibling_tree1)
      (simp add: sibling_tree1_def getSubscriptions_def)
  have "n_topic (b_topics ?s) = []" by (simp add: sibling_tree1_def)
  from publish_persist_no_subscription [OF this l] sync_persist_options [of ?s]
  show ?thesis
    by (simp add: findLineage_sibling_tree1 addTopicLine_a_dash_b)
      (simp add: set_persisted_def sibling_tree_def sibling_state_def)
qed

text \<open>
  \<open>sibling_state\<close> is the broker after
  \<open>publish('a.b', 1, {sync: true, persist: true})\<close> and
  \<open>publish('a-b', 2, {sync: true, persist: true})\<close> on a fresh broker.
\<close>

lemma sibling_state_reachable:
  "fst (snd (publish
     (fst (snd (publish create (JStr ''a.b'') (JNum (Fin 1)) sync_persist)))
     (JStr ''a-b'') (JNum (Fin 2)) sync_persist)) = sibling_state"
  by (simp only: sibling_publish_1 sibling_publish_2)

text \<open>
  The search for the node of \<open>a.b\<close> looks at the child at the index of the binary
  search and at the child in front of it: here these are none and \<open>a-b\<close>, and the
  search returns the root although \<open>a\<close> and \<open>a.b\<close> are in the tree.
\<close>

lemma ancestorTopicSearch_sibling_tree: "ancestorTopicSearch ''a.b'' sibling_tree = []"
  by code_simp

lemma binaryIndexBy_sibling_tree:
  "binaryIndexBy getTopic ''a.b'' (n_children sibling_tree) = 2"
  "binaryIndexBy getTopic ''a'' (n_children sibling_tree) = 0"
  by code_simp+

lemma addTopicLine_sibling:
  "addTopicLine ''a.b'' (sibling_tree, []) =
     (Node [] []
       [Node ''a'' [] [Node ''a.b'' [] [] []] [],
        Node ''a'' []
          [Node ''a.b'' [] []
             [\<lparr>m_topic = ''a.b'', m_data = JNum (Fin 1), m_order = - 9007199254740992\<rparr>]]
          [],
        Node ''a-b'' [] []
          [\<lparr>m_topic = ''a-b'', m_data = JNum (Fin 2), m_order = - 9007199254740991\<rparr>]]
       [], [0, 0])"
proof -
  let ?t1 = "Node [] []
       [Node ''a'' [] [] [],
        Node ''a'' []
          [Node ''a.b'' [] []
             [\<lparr>m_topic = ''a.b'', m_data = JNum (Fin 1), m_order = - 9007199254740992\<rparr>]]
          [],
        Node ''a-b'' [] []
          [\<lparr>m_topic = ''a-b'', m_data = JNum (Fin 2), m_order = - 9007199254740991\<rparr>]]
       []"
  have r: "replace_leading_dot ''a.b'' = ''a.b''" by (simp add: replace_leading_dot_def)
  have s: "split CHR ''.'' ''a.b'' = [''a'', ''b'']" by simp
  have p: "reduce appendPrefixedTopic [[]] [''a'', ''b''] = [[], ''a'', ''a.b'']"
    by (simp add: reduce_def appendPrefixedTopic_def)
  have g: "getTopic (Node ''a'' [] [] []) = ''a''" by (simp add: getTopic_def)
  have 1: "addChildTopic (sibling_tree, []) (Node ''a'' [] [] []) = (?t1, [0])"
    unfolding addChildTopic_def addChild_def Let_def fst_conv snd_conv nodeAt.simps g
      binaryIndexBy_sibling_tree
    by (simp add: splice_in_def set_children_def sibling_tree_def)
  have 2: "addChildTopic (?t1, [0]) (Node ''a.b'' [] [] []) =
      (Node [] []
       [Node ''a'' [] [Node ''a.b'' [] [] []] [],
        Node ''a'' []
          [Node ''a.b'' [] []
             [\<lparr>m_topic = ''a.b'', m_data = JNum (Fin 1), m_order = - 9007199254740992\<rparr>]]
          [],
        Node ''a-b'' [] []
          [\<lparr>m_topic = ''a-b'', m_data = JNum (Fin 2), m_order = - 9007199254740991\<rparr>]]
       [], [0, 0])"
    by (simp add: addChildTopic_def addChild_def binaryIndexBy_empty splice_in_def set_children_def)
  have n: "n_topic (nodeAt (fst (sibling_tree, [])) (snd (sibling_tree, []))) = []"
    by (simp add: sibling_tree_def)
  show ?thesis
    unfolding addTopicLine_def Let_def n
    by (simp add: r s p addFamilyLine_def createNode_def del: split.simps)
      (simp add: reduce_def 1 2)
qed

lemma persisted_sorted_sibling: "persisted_sorted (b_topics sibling_state)"
  by (simp add: sibling_state_def sibling_tree_def)

text \<open>
  C8 fails on the code. After persisted publications on \<open>a.b\<close> and \<open>a-b\<close>,
  \<open>subscribe('a.b', echo)\<close> returns its token and \<open>echo\<close> is not called, although the
  message of the first publication is stored at the node of topic \<open>a.b\<close>:
  \<open>ancestorTopicSearch\<close> does not find this node, \<open>addTopicLine\<close> builds a second
  node \<open>a\<close> with a second node \<open>a.b\<close> in front of the first ones, and the
  subscription is registered there, where no message is stored.
\<close>

theorem subscribe_misses_persisted:
  "subscribe sibling_state (JStr ''a.b'') (SFunction echo) Map.empty JUndefined =
     (Inr \<lparr>t_topic = ''a.b'', t_id = - 9007199254740990, t_priority = Some (Fin 0)\<rparr>,
      sibling_state
        \<lparr>b_topics :=
           Node [] []
             [Node ''a'' []
                [Node ''a.b''
                   [\<lparr>s_id = - 9007199254740990, s_fn = echo, s_suspended = False,
                      s_priority = Fin 0, s_context = JNull\<rparr>] [] []]
                [],
              Node ''a'' []
                [Node ''a.b'' [] []
                   [\<lparr>m_topic = ''a.b'', m_data = JNum (Fin 1),
                      m_order = - 9007199254740992\<rparr>]]
                [],
              Node ''a-b'' [] []
                [\<lparr>m_topic = ''a-b'', m_data = JNum (Fin 2), m_order = - 9007199254740991\<rparr>]]
             [],
         b_id := - 9007199254740989\<rparr>,
      [])
   \<and> \<not> to_boolean (opt (merge (b_options sibling_state) Map.empty) ''ignorePersisted'')
   \<and> n_topic (nodeAt (b_topics sibling_state) [0, 0]) = ''a.b''
   \<and> n_persisted (nodeAt (b_topics sibling_state) [0, 0]) =
       [\<lparr>m_topic = ''a.b'', m_data = JNum (Fin 1), m_order = - 9007199254740992\<rparr>]"
proof -
  have i: "\<not> to_boolean (opt (merge (b_options sibling_state) Map.empty) ''ignorePersisted'')"
    by (simp add: merge_def opt_def sibling_state_def create_def)
  have t: "b_topics sibling_state = sibling_tree" "b_id sibling_state = - 9007199254740990"
    by (simp_all add: sibling_state_def)
  have r: "subscription_ref sibling_state ''a.b'' = [0, 0]"
    by (simp add: subscription_ref_def t ancestorTopicSearch_sibling_tree addTopicLine_sibling)
  have c: "createSubscription (- 9007199254740990) (SFunction echo)
      (merge (b_options sibling_state) Map.empty) JUndefined =
      \<lparr>s_id = - 9007199254740990, s_fn = echo, s_suspended = False,
         s_priority = Fin 0, s_context = JNull\<rparr>"
    by (simp add: createSubscription_def merge_def opt_def sibling_state_def create_def)
  have s: "subscribe sibling_state (JStr ''a.b'') (SFunction echo) Map.empty JUndefined =
     (Inr \<lparr>t_topic = ''a.b'', t_id = - 9007199254740990, t_priority = Some (Fin 0)\<rparr>,
      sibling_state
        \<lparr>b_topics :=
           Node [] []
             [Node ''a'' []
                [Node ''a.b''
                   [\<lparr>s_id = - 9007199254740990, s_fn = echo, s_suspended = False,
                      s_priority = Fin 0, s_context = JNull\<rparr>] [] []]
                [],
              Node ''a'' []
                [Node ''a.b'' [] []
                   [\<lparr>m_topic = ''a.b'', m_data = JNum (Fin 1),
                      m_order = - 9007199254740992\<rparr>]]
                [],
              Node ''a-b'' [] []
                [\<lparr>m_topic = ''a-b'', m_data = JNum (Fin 2), m_order = - 9007199254740991\<rparr>]]
             [],
         b_id := - 9007199254740989\<rparr>,
      [])"
    unfolding subscribe_string [OF persisted_sorted_sibling] Let_def r t
      ancestorTopicSearch_sibling_tree addTopicLine_sibling fst_conv c
    using i
    by (simp add: insert_js_empty set_subscriptions_def descendents_eq)
  show ?thesis
    using s i by (simp add: t sibling_tree_def)
qed

text \<open>
  The replay calls the function with two arguments and outside any \<open>try\<close>. A node-style
  subscriber, which calls its third parameter, raises a \<open>TypeError\<close> out of
  \<open>subscribe\<close> at the first persisted message.
\<close>

lemma subscribe_node_style_raises:
  "fst (subscribe replay_state (JStr ''x'') (SFunction three_parameters) Map.empty JNull) =
     Inl TypeError
   \<and> snd (snd (subscribe replay_state (JStr ''x'') (SFunction three_parameters) Map.empty JNull)) =
     [(JNum (Fin 1), JStr ''x.y'')]"
  using subscribe_replay [of "SFunction three_parameters"] by (auto simp: three_parameters_def)

end
